theory Spec2Isabelle
  imports Complex_Main "HOL-Library.Option_ord"
begin

section \<open>engine/enums.py: player order\<close>

text \<open>
  \<^verbatim>\<open>class PlayerOrder(IntEnum): FIRST = 0; SECOND = 1\<close>.
  The members are a datatype; \<open>PlayerOrder_value\<close> is the integer an \<open>IntEnum\<close>
  member stands for in arithmetic, \<open>PlayerOrder_call\<close> is the call \<^verbatim>\<open>PlayerOrder(v)\<close>, which
  raises \<^verbatim>\<open>ValueError\<close> on an integer that is no member's value.
\<close>

datatype PlayerOrder = FIRST | SECOND

fun PlayerOrder_value :: "PlayerOrder \<Rightarrow> int" where
  "PlayerOrder_value FIRST = 0"
| "PlayerOrder_value SECOND = 1"

section \<open>exceptions.py: the exception classes\<close>

text \<open>
  One constructor per class statement of \<^verbatim>\<open>exceptions.py\<close>, and the builtin
  \<^verbatim>\<open>Exception\<close> both roots derive from. \<open>base_class\<close> is the class written in
  parentheses in the class statement.
\<close>

datatype exc_class =
    Exception
  | GameError
  | ActionError
  | FullHandError
  | EmptyDeckError
  | WardShieldError
  | NotEnoughManaError
  | FullLaneError
  | MalformedActionError

fun base_class :: "exc_class \<Rightarrow> exc_class option" where
  "base_class Exception = None"
| "base_class GameError = Some Exception"
| "base_class ActionError = Some Exception"
| "base_class FullHandError = Some GameError"
| "base_class EmptyDeckError = Some GameError"
| "base_class WardShieldError = Some GameError"
| "base_class NotEnoughManaError = Some ActionError"
| "base_class FullLaneError = Some ActionError"
| "base_class MalformedActionError = Some ActionError"

fun class_depth :: "exc_class \<Rightarrow> nat" where
  "class_depth Exception = 0"
| "class_depth GameError = 1"
| "class_depth ActionError = 1"
| "class_depth FullHandError = 2"
| "class_depth EmptyDeckError = 2"
| "class_depth WardShieldError = 2"
| "class_depth NotEnoughManaError = 2"
| "class_depth FullLaneError = 2"
| "class_depth MalformedActionError = 2"

text \<open>
  The method resolution order of a class under single inheritance: the class, then
  the order of its base. \<open>issubclass c d\<close> is Python's \<^verbatim>\<open>issubclass(c, d)\<close>.
\<close>

function mro :: "exc_class \<Rightarrow> exc_class list" where
  "mro c = c # (case base_class c of None \<Rightarrow> [] | Some b \<Rightarrow> mro b)"
  by pat_completeness auto
termination
proof (relation "measure class_depth")
  show "wf (measure class_depth)" by simp
next
  fix c b
  assume "base_class c = Some b"
  then show "(b, c) \<in> measure class_depth"
    by (cases c) auto
qed

definition issubclass :: "exc_class \<Rightarrow> exc_class \<Rightarrow> bool" where
  "issubclass c d = (d \<in> set (mro c))"

text \<open>The six error kinds of the rules engine.\<close>

definition error_kinds :: "exc_class list" where
  "error_kinds = [FullHandError, EmptyDeckError, WardShieldError,
                  NotEnoughManaError, FullLaneError, MalformedActionError]"

section \<open>Raised exceptions as values\<close>

text \<open>
  An exception that leaves a function is the \<open>Inl\<close> of its result. The builtin
  exceptions the modelled code can raise are constructors of their own; an exception
  of \<^verbatim>\<open>exceptions.py\<close> raised by the rules engine is \<open>Raised c\<close>.
\<close>

datatype py_error =
    RuntimeError
  | ValueError
  | ZeroDivisionError
  | OverflowError
  | AssertionError
  | IndexError
  | Raised exc_class

text \<open>
  The exceptions float arithmetic and the functions of \<^verbatim>\<open>math\<close> raise, and the builtin
  exception each of them is.
\<close>

datatype float_error = FloatValueError | FloatZeroDivisionError | FloatOverflowError

fun raise_float :: "float_error \<Rightarrow> py_error" where
  "raise_float FloatValueError = ValueError"
| "raise_float FloatZeroDivisionError = ZeroDivisionError"
| "raise_float FloatOverflowError = OverflowError"

definition PlayerOrder_call :: "int \<Rightarrow> py_error + PlayerOrder" where
  "PlayerOrder_call v =
     (if v = 0 then Inr FIRST else if v = 1 then Inr SECOND else Inl ValueError)"

text \<open>\<^verbatim>\<open>def opposing(self): return PlayerOrder((self + 1) % 2)\<close>\<close>

definition opposing :: "PlayerOrder \<Rightarrow> py_error + PlayerOrder" where
  "opposing self = PlayerOrder_call ((PlayerOrder_value self + 1) mod 2)"

section \<open>The node and engine interface, and float arithmetic\<close>

text \<open>
  The search node class and the engine's \<^verbatim>\<open>State\<close> are not among the sources; the
  code calls them through the methods and attributes below, which are therefore
  parameters of the model: \<open>'n\<close> is the type of nodes (compared and hashed by
  value), \<open>'g\<close> the type of engine states, \<open>'a\<close> the type of actions.
  \<open>current_player_id g\<close> is \<^verbatim>\<open>g.current_player.id\<close>; \<open>act g a\<close> is the state after
  \<^verbatim>\<open>g.act(a)\<close>, or the exception of \<^verbatim>\<open>exceptions.py\<close> the engine raises. They are
  functions: a call returns a value that depends on its arguments only and has no
  effect on the searcher; so are the agents, each a function from the state it is
  shown to its action.

  The scores of the searcher are Python floats. Their arithmetic is a parameter
  too, so that nothing is assumed about how a float operation rounds, overflows or
  treats infinities and NaN: \<open>'f\<close> is the type of float values,
  \<open>float_div_int q n\<close> is \<^verbatim>\<open>q / n\<close> for two ints with \<open>n\<close> not zero, \<open>float_log n\<close> is
  \<^verbatim>\<open>math.log(n)\<close> for a positive int, \<open>float_div x n\<close> is \<^verbatim>\<open>x / n\<close> for a float and an
  int, \<open>float_sqrt x\<close> is \<^verbatim>\<open>math.sqrt(x)\<close>, each with the exception it may raise;
  \<open>float_mul\<close> and \<open>float_add\<close> are \<^verbatim>\<open>*\<close> and \<^verbatim>\<open>+\<close> on two floats, which do not
  raise; \<open>float_1_41\<close> is the float the literal \<^verbatim>\<open>1.41\<close> denotes. Floats are compared
  by \<open><\<close> of the type \<open>'f\<close>, of which only irreflexivity and transitivity are used
  (the class \<open>order\<close>): two floats may be incomparable, as NaN is to every float.
\<close>

record ('n, 'g, 'a, 'f) iface =
  is_terminal :: "'n \<Rightarrow> bool"
  find_children :: "'n \<Rightarrow> 'n list"
  find_random_child :: "'n \<Rightarrow> 'n"
  state :: "'n \<Rightarrow> 'g"
  clone :: "'g \<Rightarrow> 'g"
  winner :: "'g \<Rightarrow> PlayerOrder option"
  current_player_id :: "'g \<Rightarrow> PlayerOrder"
  act :: "'g \<Rightarrow> 'a \<Rightarrow> exc_class + 'g"
  float_div_int :: "int \<Rightarrow> int \<Rightarrow> float_error + 'f"
  float_log :: "int \<Rightarrow> float_error + 'f"
  float_div :: "'f \<Rightarrow> int \<Rightarrow> float_error + 'f"
  float_sqrt :: "'f \<Rightarrow> float_error + 'f"
  float_mul :: "'f \<Rightarrow> 'f \<Rightarrow> 'f"
  float_add :: "'f \<Rightarrow> 'f \<Rightarrow> 'f"
  float_1_41 :: "'f"

section \<open>envs/rewards.py: the win-loss reward\<close>

text \<open>
  \<^verbatim>\<open>if state.winner == for_player: return 1
  elif state.winner == for_player.opposing(): return -1
  else: return 0\<close>
\<close>

definition WinLossRewardFunction_calculate ::
  "('n, 'g, 'a, 'f) iface \<Rightarrow> 'g \<Rightarrow> PlayerOrder \<Rightarrow> py_error + int" where
  "WinLossRewardFunction_calculate ops st for_player =
     (if winner ops st = Some for_player then Inr 1
      else case opposing for_player of
             Inl e \<Rightarrow> Inl e
           | Inr opp \<Rightarrow> if winner ops st = Some opp then Inr (- 1) else Inr 0)"

section \<open>algorithms/mcts.py: the searcher\<close>

text \<open>
  The instance attributes set by \<^verbatim>\<open>__init__\<close>. \<open>Q\<close>, \<open>N\<close> and \<open>children\<close> are
  \<^verbatim>\<open>defaultdict\<close>s: a map from the keys present to their values. \<open>agents\<close> is the
  sequence indexed by a player's id; \<open>exploration_weight\<close> is taken to be a float, as
  its default \<^verbatim>\<open>1.41\<close> is.
\<close>

record ('n, 'g, 'a, 'f) MCTS =
  agents :: "('g \<Rightarrow> 'a) list"
  Q :: "'n \<rightharpoonup> int"
  N :: "'n \<rightharpoonup> int"
  children :: "'n \<rightharpoonup> 'n list"
  exploration_weight :: 'f

definition MCTS_init :: "('g \<Rightarrow> 'a) list \<Rightarrow> 'f \<Rightarrow> ('n, 'g, 'a, 'f) MCTS" where
  "MCTS_init ags w =
     \<lparr>agents = ags, Q = Map.empty, N = Map.empty, children = Map.empty,
      exploration_weight = w\<rparr>"

text \<open>The default \<^verbatim>\<open>exploration_weight=1.41\<close>.\<close>

definition MCTS_init_default ::
  "('n, 'g, 'a, 'f) iface \<Rightarrow> ('g \<Rightarrow> 'a) list \<Rightarrow> ('n, 'g, 'a, 'f) MCTS" where
  "MCTS_init_default ops ags = MCTS_init ags (float_1_41 ops)"

subsection \<open>Reading a defaultdict\<close>

text \<open>
  \<^verbatim>\<open>d[k]\<close> on a \<^verbatim>\<open>defaultdict\<close> returns the value of a key that is present; for a
  missing key it stores the default under the key and returns it. So a read returns
  the value and the dictionary after the read.
\<close>

definition dd_get :: "'v \<Rightarrow> ('k \<rightharpoonup> 'v) \<Rightarrow> 'k \<Rightarrow> 'v \<times> ('k \<rightharpoonup> 'v)" where
  "dd_get d m k = (case m k of None \<Rightarrow> (d, m(k \<mapsto> d)) | Some v \<Rightarrow> (v, m))"

definition getQ :: "('n, 'g, 'a, 'f) MCTS \<Rightarrow> 'n \<Rightarrow> int \<times> ('n, 'g, 'a, 'f) MCTS" where
  "getQ s n = (case dd_get 0 (Q s) n of (v, m) \<Rightarrow> (v, s\<lparr>Q := m\<rparr>))"

definition getN :: "('n, 'g, 'a, 'f) MCTS \<Rightarrow> 'n \<Rightarrow> int \<times> ('n, 'g, 'a, 'f) MCTS" where
  "getN s n = (case dd_get 0 (N s) n of (v, m) \<Rightarrow> (v, s\<lparr>N := m\<rparr>))"

definition getC :: "('n, 'g, 'a, 'f) MCTS \<Rightarrow> 'n \<Rightarrow> 'n list \<times> ('n, 'g, 'a, 'f) MCTS" where
  "getC s n = (case dd_get [] (children s) n of (v, m) \<Rightarrow> (v, s\<lparr>children := m\<rparr>))"

subsection \<open>The builtin max with a key function\<close>

text \<open>
  \<^verbatim>\<open>max(xs, key=f)\<close> calls \<open>f\<close> once on every element, in order, and returns the
  first element whose key is not exceeded by any other: the running maximum is
  replaced only by an element whose key is greater (\<^verbatim>\<open>key > maxkey\<close>, which for floats
  is \<^verbatim>\<open>maxkey < key\<close>). It raises \<^verbatim>\<open>ValueError\<close> on an empty sequence. The key functions here read defaultdicts, so they take and return the
  instance; comparing two keys has no effect, so the keys are computed first.
\<close>

fun keys_of ::
  "('s \<Rightarrow> 'x \<Rightarrow> py_error + ('k \<times> 's)) \<Rightarrow> 's \<Rightarrow> 'x list \<Rightarrow> py_error + (('k \<times> 'x) list \<times> 's)" where
  "keys_of f s [] = Inr ([], s)"
| "keys_of f s (x # xs) =
     (case f s x of
        Inl e \<Rightarrow> Inl e
      | Inr (k, s1) \<Rightarrow>
          (case keys_of f s1 xs of
             Inl e \<Rightarrow> Inl e
           | Inr (ks, s2) \<Rightarrow> Inr ((k, x) # ks, s2)))"

fun max_step :: "('k::order) \<times> 'x \<Rightarrow> 'k \<times> 'x \<Rightarrow> 'k \<times> 'x" where
  "max_step (bk, b) (k, x) = (if bk < k then (k, x) else (bk, b))"

fun py_max :: "(('k::order) \<times> 'x) list \<Rightarrow> py_error + 'x" where
  "py_max [] = Inl ValueError"
| "py_max (kx # rest) = Inr (snd (foldl max_step kx rest))"

subsection \<open>choose\<close>

text \<open>
  \<^verbatim>\<open>def score(n):
      if self.N[n] == 0: return float("-inf")
      return self.Q[n] / self.N[n]\<close>
  The score \<open>None\<close> is \<^verbatim>\<open>float("-inf")\<close>, below every \<open>Some x\<close>, the quotients of two
  ints (such a quotient is a finite float, or the division raises). The second
  read of \<^verbatim>\<open>self.N[n]\<close> finds the key the first read left there, and it is not zero.
\<close>

definition score ::
  "('n, 'g, 'a, 'f) iface \<Rightarrow> ('n, 'g, 'a, 'f) MCTS \<Rightarrow> 'n
     \<Rightarrow> py_error + ('f option \<times> ('n, 'g, 'a, 'f) MCTS)" where
  "score ops s n =
     (case getN s n of (nv, s1) \<Rightarrow>
        if nv = 0 then Inr (None, s1)
        else (case getQ s1 n of (qv, s2) \<Rightarrow>
                (case float_div_int ops qv nv of
                   Inl e \<Rightarrow> Inl (raise_float e)
                 | Inr x \<Rightarrow> Inr (Some x, s2))))"

text \<open>
  \<^verbatim>\<open>if node.is_terminal(): raise RuntimeError(...)
  if node not in self.children: return node.find_random_child()
  return max(self.children[node], key=score)\<close>
\<close>

definition MCTS_choose ::
  "('n, 'g, 'a, 'f::order) iface \<Rightarrow> ('n, 'g, 'a, 'f) MCTS \<Rightarrow> 'n \<Rightarrow> py_error + ('n \<times> ('n, 'g, 'a, 'f) MCTS)" where
  "MCTS_choose ops s node =
     (if is_terminal ops node then Inl RuntimeError
      else case children s node of
        None \<Rightarrow> Inr (find_random_child ops node, s)
      | Some cs \<Rightarrow>
          (case keys_of (score ops) s cs of
             Inl e \<Rightarrow> Inl e
           | Inr (ks, s1) \<Rightarrow>
               (case py_max ks of Inl e \<Rightarrow> Inl e | Inr n \<Rightarrow> Inr (n, s1))))"

subsection \<open>\_uct\_select\<close>

text \<open>
  \<^verbatim>\<open>def uct(n):
      return self.Q[n] / self.N[n] + self.exploration_weight * math.sqrt(
          log_n_vertex / self.N[n])\<close>
  The left operand is evaluated first: the division of the two ints raises
  \<^verbatim>\<open>ZeroDivisionError\<close> on a zero visit count. Then the quotient of the float
  \<^verbatim>\<open>log_n_vertex\<close> and the visit count, its square root, the product and the sum.
\<close>

definition uct ::
  "('n, 'g, 'a, 'f) iface \<Rightarrow> 'f \<Rightarrow> ('n, 'g, 'a, 'f) MCTS \<Rightarrow> 'n
     \<Rightarrow> py_error + ('f \<times> ('n, 'g, 'a, 'f) MCTS)" where
  "uct ops log_n_vertex s n =
     (case getQ s n of (qv, s1) \<Rightarrow>
      case getN s1 n of (nv, s2) \<Rightarrow>
        if nv = 0 then Inl ZeroDivisionError
        else (case float_div_int ops qv nv of
                Inl e \<Rightarrow> Inl (raise_float e)
              | Inr a \<Rightarrow>
                  (case float_div ops log_n_vertex nv of
                     Inl e \<Rightarrow> Inl (raise_float e)
                   | Inr x \<Rightarrow>
                       (case float_sqrt ops x of
                          Inl e \<Rightarrow> Inl (raise_float e)
                        | Inr r \<Rightarrow>
                            Inr (float_add ops a (float_mul ops (exploration_weight s2) r),
                                 s2)))))"

text \<open>
  \<^verbatim>\<open>assert all(n in self.children for n in self.children[node])
  log_n_vertex = math.log(self.N[node])
  return max(self.children[node], key=uct)\<close>
  \<^verbatim>\<open>math.log\<close> raises \<^verbatim>\<open>ValueError\<close> on an argument that is not positive.
\<close>

definition uct_select ::
  "('n, 'g, 'a, 'f::order) iface \<Rightarrow> ('n, 'g, 'a, 'f) MCTS \<Rightarrow> 'n
     \<Rightarrow> py_error + ('n \<times> ('n, 'g, 'a, 'f) MCTS)" where
  "uct_select ops s node =
     (case getC s node of (cs, s1) \<Rightarrow>
        if \<not> list_all (\<lambda>n. children s1 n \<noteq> None) cs then Inl AssertionError
        else (case getN s1 node of (nv, s2) \<Rightarrow>
          if nv \<le> 0 then Inl ValueError
          else (case float_log ops nv of
                  Inl e \<Rightarrow> Inl (raise_float e)
                | Inr log_n_vertex \<Rightarrow>
                    (case keys_of (uct ops log_n_vertex) s2 cs of
                       Inl e \<Rightarrow> Inl e
                     | Inr (ks, s3) \<Rightarrow>
                         (case py_max ks of Inl e \<Rightarrow> Inl e | Inr n \<Rightarrow> Inr (n, s3))))))"

subsection \<open>\_select\<close>

text \<open>
  The \<^verbatim>\<open>while True\<close> loop of \<^verbatim>\<open>_select\<close>, with the node and the path as its state.
  The loop has no bound: where it does not return the result is \<open>None\<close>.
  \<^verbatim>\<open>unexplored.pop()\<close> is the last element of the list.
\<close>

partial_function (option) select_loop ::
  "('n, 'g, 'a, 'f::order) iface \<Rightarrow> ('n, 'g, 'a, 'f) MCTS \<Rightarrow> 'n \<Rightarrow> 'n list
     \<Rightarrow> (py_error + ('n list \<times> ('n, 'g, 'a, 'f) MCTS)) option" where
  "select_loop ops s node path =
     (case children s node of
        None \<Rightarrow> Some (Inr (path @ [node], s))
      | Some cs \<Rightarrow>
          if cs = [] \<or> is_terminal ops node then Some (Inr (path @ [node], s))
          else if filter (\<lambda>item. children s item = None) cs \<noteq> []
          then Some (Inr (path @ [node] @ [last (filter (\<lambda>item. children s item = None) cs)], s))
          else (case uct_select ops s node of
                  Inl e \<Rightarrow> Some (Inl e)
                | Inr (n, s1) \<Rightarrow> select_loop ops s1 n (path @ [node])))"

definition select ::
  "('n, 'g, 'a, 'f::order) iface \<Rightarrow> ('n, 'g, 'a, 'f) MCTS \<Rightarrow> 'n
     \<Rightarrow> (py_error + ('n list \<times> ('n, 'g, 'a, 'f) MCTS)) option" where
  "select ops s node = select_loop ops s node []"

subsection \<open>\_expand\<close>

text \<open>
  \<^verbatim>\<open>if node in self.children: return
  self.children[node] = node.find_children()\<close>
\<close>

definition expand :: "('n, 'g, 'a, 'f) iface \<Rightarrow> ('n, 'g, 'a, 'f) MCTS \<Rightarrow> 'n \<Rightarrow> ('n, 'g, 'a, 'f) MCTS" where
  "expand ops s node =
     (case children s node of
        Some cs \<Rightarrow> s
      | None \<Rightarrow> s\<lparr>children := (children s)(node \<mapsto> find_children ops node)\<rparr>)"

subsection \<open>\_simulate\<close>

text \<open>
  \<^verbatim>\<open>while game.winner is None:
      action = self.agents[game.current_player.id].act(game)
      game.act(action)\<close>
  Indexing the agents outside their range raises \<^verbatim>\<open>IndexError\<close>; an exception of
  the engine leaves the loop. The loop has no bound.
\<close>

partial_function (option) simulate_loop ::
  "('n, 'g, 'a, 'f) iface \<Rightarrow> ('g \<Rightarrow> 'a) list \<Rightarrow> 'g \<Rightarrow> (py_error + 'g) option" where
  "simulate_loop ops ags game =
     (case winner ops game of
        Some w \<Rightarrow> Some (Inr game)
      | None \<Rightarrow>
          if length ags \<le> nat (PlayerOrder_value (current_player_id ops game))
          then Some (Inl IndexError)
          else (case act ops game
                       ((ags ! nat (PlayerOrder_value (current_player_id ops game))) game) of
                  Inl e \<Rightarrow> Some (Inl (Raised e))
                | Inr game' \<Rightarrow> simulate_loop ops ags game'))"

text \<open>
  \<^verbatim>\<open>game = node.state.clone()\<close>, the loop, then
  \<^verbatim>\<open>return 1 if game.winner == PlayerOrder.FIRST else -1\<close>.
\<close>

definition simulate ::
  "('n, 'g, 'a, 'f) iface \<Rightarrow> ('n, 'g, 'a, 'f) MCTS \<Rightarrow> 'n \<Rightarrow> (py_error + int) option" where
  "simulate ops s node =
     (case simulate_loop ops (agents s) (clone ops (state ops node)) of
        None \<Rightarrow> None
      | Some (Inl e) \<Rightarrow> Some (Inl e)
      | Some (Inr game) \<Rightarrow> Some (Inr (if winner ops game = Some FIRST then 1 else - 1)))"

subsection \<open>\_backpropagate\<close>

text \<open>
  The body of the loop over \<^verbatim>\<open>reversed(path)\<close>:
  \<^verbatim>\<open>self.N[node] += 1
  if node.state.current_player.id == PlayerOrder.FIRST: self.Q[node] += reward
  else: self.Q[node] -= reward\<close>
  An augmented assignment reads the entry (the default for a missing key) and stores
  the new value.
\<close>

definition backpropagate_step ::
  "('n, 'g, 'a, 'f) iface \<Rightarrow> int \<Rightarrow> ('n, 'g, 'a, 'f) MCTS \<Rightarrow> 'n \<Rightarrow> ('n, 'g, 'a, 'f) MCTS" where
  "backpropagate_step ops reward s node =
     (let s1 = s\<lparr>N := (N s)(node \<mapsto> fst (dd_get 0 (N s) node) + 1)\<rparr>
      in if current_player_id ops (state ops node) = FIRST
         then s1\<lparr>Q := (Q s1)(node \<mapsto> fst (dd_get 0 (Q s1) node) + reward)\<rparr>
         else s1\<lparr>Q := (Q s1)(node \<mapsto> fst (dd_get 0 (Q s1) node) - reward)\<rparr>)"

definition backpropagate ::
  "('n, 'g, 'a, 'f) iface \<Rightarrow> ('n, 'g, 'a, 'f) MCTS \<Rightarrow> 'n list \<Rightarrow> int \<Rightarrow> ('n, 'g, 'a, 'f) MCTS" where
  "backpropagate ops s path reward = foldl (backpropagate_step ops reward) s (rev path)"

subsection \<open>do\_rollout\<close>

text \<open>
  \<^verbatim>\<open>path = self._select(node); leaf = path[-1]
  self._expand(leaf)
  reward = self._simulate(leaf)
  self._backpropagate(path, reward)\<close>
\<close>

definition do_rollout ::
  "('n, 'g, 'a, 'f::order) iface \<Rightarrow> ('n, 'g, 'a, 'f) MCTS \<Rightarrow> 'n \<Rightarrow> (py_error + ('n, 'g, 'a, 'f) MCTS) option" where
  "do_rollout ops s node =
     (case select ops s node of
        None \<Rightarrow> None
      | Some (Inl e) \<Rightarrow> Some (Inl e)
      | Some (Inr (path, s1)) \<Rightarrow>
          if path = [] then Some (Inl IndexError)
          else (case simulate ops (expand ops s1 (last path)) (last path) of
                  None \<Rightarrow> None
                | Some (Inl e) \<Rightarrow> Some (Inl e)
                | Some (Inr reward) \<Rightarrow>
                    Some (Inr (backpropagate ops (expand ops s1 (last path)) path reward))))"

text \<open>\<open>k\<close> calls of \<^verbatim>\<open>do_rollout(node)\<close> in a row; the first exception ends them.\<close>

fun do_rollouts ::
  "nat \<Rightarrow> ('n, 'g, 'a, 'f::order) iface \<Rightarrow> ('n, 'g, 'a, 'f) MCTS \<Rightarrow> 'n \<Rightarrow> (py_error + ('n, 'g, 'a, 'f) MCTS) option" where
  "do_rollouts 0 ops s node = Some (Inr s)"
| "do_rollouts (Suc k) ops s node =
     (case do_rollout ops s node of
        None \<Rightarrow> None
      | Some (Inl e) \<Rightarrow> Some (Inl e)
      | Some (Inr s1) \<Rightarrow> do_rollouts k ops s1 node)"

section \<open>Reading the tables\<close>

text \<open>
  The value a read \<^verbatim>\<open>self.N[n]\<close>, \<^verbatim>\<open>self.Q[n]\<close> or \<^verbatim>\<open>self.children[n]\<close> returns: the
  entry, or the default of the table for a missing key.
\<close>

definition N_of :: "('n, 'g, 'a, 'f) MCTS \<Rightarrow> 'n \<Rightarrow> int" where
  "N_of s n = (case N s n of None \<Rightarrow> 0 | Some v \<Rightarrow> v)"

definition Q_of :: "('n, 'g, 'a, 'f) MCTS \<Rightarrow> 'n \<Rightarrow> int" where
  "Q_of s n = (case Q s n of None \<Rightarrow> 0 | Some v \<Rightarrow> v)"

definition children_of :: "('n, 'g, 'a, 'f) MCTS \<Rightarrow> 'n \<Rightarrow> 'n list" where
  "children_of s n = (case children s n of None \<Rightarrow> [] | Some cs \<Rightarrow> cs)"

text \<open>
  Two instances read alike when they agree on everything a read returns: they may
  differ only in the default entries that reads of \<open>Q\<close> and \<open>N\<close> have stored.
\<close>

definition same_view :: "('n, 'g, 'a, 'f) MCTS \<Rightarrow> ('n, 'g, 'a, 'f) MCTS \<Rightarrow> bool" where
  "same_view s t =
     (children s = children t \<and> N_of s = N_of t \<and> Q_of s = Q_of t \<and>
      exploration_weight s = exploration_weight t \<and> agents s = agents t)"

text \<open>The reward as backpropagation adds it at a node: flipped for the second player.\<close>

definition signed :: "('n, 'g, 'a, 'f) iface \<Rightarrow> 'n \<Rightarrow> int \<Rightarrow> int" where
  "signed ops n reward = (if current_player_id ops (state ops n) = FIRST then reward else - reward)"

section \<open>Scores as values\<close>

text \<open>
  The value of \<^verbatim>\<open>score(n)\<close> in \<open>MCTS_choose\<close> (\<open>None\<close> is minus infinity) and the value
  of \<^verbatim>\<open>uct(n)\<close> in \<open>uct_select\<close> for the logarithm \<open>l\<close>, without the instance they
  return: what they compute, in the float arithmetic of \<open>ops\<close>, from the values the
  reads return. \<open>uct_score ops s p n\<close> is the whole key of a child \<open>n\<close> of \<open>p\<close>:
  \<^verbatim>\<open>Q[n]/N[n] + c * sqrt(log(N[p]) / N[n])\<close> as the code computes it, logarithm
  included.
\<close>

definition avg_reward ::
  "('n, 'g, 'a, 'f) iface \<Rightarrow> ('n, 'g, 'a, 'f) MCTS \<Rightarrow> 'n \<Rightarrow> py_error + 'f option" where
  "avg_reward ops s n =
     (if N_of s n = 0 then Inr None
      else (case float_div_int ops (Q_of s n) (N_of s n) of
              Inl e \<Rightarrow> Inl (raise_float e)
            | Inr x \<Rightarrow> Inr (Some x)))"

definition uct_val ::
  "('n, 'g, 'a, 'f) iface \<Rightarrow> 'f \<Rightarrow> ('n, 'g, 'a, 'f) MCTS \<Rightarrow> 'n \<Rightarrow> py_error + 'f" where
  "uct_val ops l s n =
     (if N_of s n = 0 then Inl ZeroDivisionError
      else (case float_div_int ops (Q_of s n) (N_of s n) of
              Inl e \<Rightarrow> Inl (raise_float e)
            | Inr a \<Rightarrow>
                (case float_div ops l (N_of s n) of
                   Inl e \<Rightarrow> Inl (raise_float e)
                 | Inr x \<Rightarrow>
                     (case float_sqrt ops x of
                        Inl e \<Rightarrow> Inl (raise_float e)
                      | Inr r \<Rightarrow>
                          Inr (float_add ops a (float_mul ops (exploration_weight s) r))))))"

definition uct_score ::
  "('n, 'g, 'a, 'f) iface \<Rightarrow> ('n, 'g, 'a, 'f) MCTS \<Rightarrow> 'n \<Rightarrow> 'n \<Rightarrow> py_error + 'f" where
  "uct_score ops s p n =
     (if N_of s p \<le> 0 then Inl ValueError
      else (case float_log ops (N_of s p) of
              Inl e \<Rightarrow> Inl (raise_float e)
            | Inr l \<Rightarrow> uct_val ops l s n))"

text \<open>
  The keys of a \<^verbatim>\<open>max\<close> and the result of \<open>uct_select\<close>, again without the instance.
\<close>

fun keys_val :: "('x \<Rightarrow> py_error + 'k) \<Rightarrow> 'x list \<Rightarrow> py_error + ('k \<times> 'x) list" where
  "keys_val g [] = Inr []"
| "keys_val g (x # xs) =
     (case g x of
        Inl e \<Rightarrow> Inl e
      | Inr k \<Rightarrow> (case keys_val g xs of Inl e \<Rightarrow> Inl e | Inr ks \<Rightarrow> Inr ((k, x) # ks)))"

definition uct_select_val ::
  "('n, 'g, 'a, 'f::order) iface \<Rightarrow> ('n, 'g, 'a, 'f) MCTS \<Rightarrow> 'n \<Rightarrow> py_error + 'n" where
  "uct_select_val ops s node =
     (if \<not> list_all (\<lambda>n. children s n \<noteq> None) (children_of s node) then Inl AssertionError
      else if N_of s node \<le> 0 then Inl ValueError
      else (case float_log ops (N_of s node) of
              Inl e \<Rightarrow> Inl (raise_float e)
            | Inr l \<Rightarrow>
                (case keys_val (uct_val ops l s) (children_of s node) of
                   Inl e \<Rightarrow> Inl e
                 | Inr ks \<Rightarrow> py_max ks)))"

section \<open>The descent, one node at a time\<close>

text \<open>
  \<open>select_stop\<close> is what the loop of \<open>select_loop\<close> appends to the path when it
  returns at a node, and \<open>None\<close> when it goes on to \<open>uct_select\<close>. \<open>sel\<close> is the
  path \<open>select\<close> returns, without the instance; \<open>repath\<close> moves a result of the
  loop from one starting path to another.
\<close>

definition select_stop :: "('n, 'g, 'a, 'f) iface \<Rightarrow> ('n, 'g, 'a, 'f) MCTS \<Rightarrow> 'n \<Rightarrow> 'n list option" where
  "select_stop ops s node =
     (case children s node of
        None \<Rightarrow> Some [node]
      | Some cs \<Rightarrow>
          if cs = [] \<or> is_terminal ops node then Some [node]
          else if filter (\<lambda>item. children s item = None) cs \<noteq> []
          then Some [node, last (filter (\<lambda>item. children s item = None) cs)]
          else None)"

definition repath ::
  "'n list \<Rightarrow> 'n list \<Rightarrow> py_error + ('n list \<times> 's) \<Rightarrow> py_error + ('n list \<times> 's)" where
  "repath path path' r = map_sum id (\<lambda>(p, s'). (path' @ drop (length path) p, s')) r"

definition res_path :: "(py_error + ('n list \<times> 's)) option \<Rightarrow> (py_error + 'n list) option" where
  "res_path r = map_option (map_sum id fst) r"

definition sel ::
  "('n, 'g, 'a, 'f::order) iface \<Rightarrow> ('n, 'g, 'a, 'f) MCTS \<Rightarrow> 'n \<Rightarrow> (py_error + 'n list) option" where
  "sel ops s node = res_path (select_loop ops s node [])"

section \<open>Invariants of the tables\<close>

text \<open>
  \<open>visits_ok\<close>: no visit count is negative and every key of \<open>children\<close> has been
  visited. \<open>children_sound\<close>: every entry of \<open>children\<close> is the node's
  \<^verbatim>\<open>find_children()\<close>. \<open>tree_at ops rt\<close>: the children of \<open>rt\<close> are pairwise
  different and none of them is reached from one of them by one or more
  \<^verbatim>\<open>find_children\<close> steps.
\<close>

definition visits_ok :: "('n, 'g, 'a, 'f) MCTS \<Rightarrow> bool" where
  "visits_ok s = ((\<forall>n. 0 \<le> N_of s n) \<and> (\<forall>n. children s n \<noteq> None \<longrightarrow> 0 < N_of s n))"

text \<open>
  \<open>stats_bounded s j\<close>: no node has more than \<open>j\<close> visits, and the cumulative reward of
  a node is between minus its visit count and its visit count. \<open>uct_computes ops j\<close>:
  the float operations of \<open>uct\<close> return on such numbers, that is \<^verbatim>\<open>q / n\<close>,
  \<^verbatim>\<open>math.log(p)\<close>, \<^verbatim>\<open>log_n_vertex / n\<close> and the square root of that quotient, for visit
  counts \<open>p\<close> and \<open>n\<close> from 1 to \<open>j\<close> and a reward \<open>q\<close> from \<open>- n\<close> to \<open>n\<close>.
\<close>

definition stats_bounded :: "('n, 'g, 'a, 'f) MCTS \<Rightarrow> int \<Rightarrow> bool" where
  "stats_bounded s j = (\<forall>n. N_of s n \<le> j \<and> - N_of s n \<le> Q_of s n \<and> Q_of s n \<le> N_of s n)"

definition uct_computes :: "('n, 'g, 'a, 'f) iface \<Rightarrow> int \<Rightarrow> bool" where
  "uct_computes ops j =
     (\<forall>p n q. 0 < p \<and> p \<le> j \<and> 0 < n \<and> n \<le> j \<and> - n \<le> q \<and> q \<le> n \<longrightarrow>
        (\<exists>a l x r. float_div_int ops q n = Inr a \<and> float_log ops p = Inr l \<and>
                   float_div ops l n = Inr x \<and> float_sqrt ops x = Inr r))"

definition is_child :: "('n, 'g, 'a, 'f) iface \<Rightarrow> 'n \<Rightarrow> 'n \<Rightarrow> bool" where
  "is_child ops n c = (c \<in> set (find_children ops n))"

definition children_sound :: "('n, 'g, 'a, 'f) iface \<Rightarrow> ('n, 'g, 'a, 'f) MCTS \<Rightarrow> bool" where
  "children_sound ops s = (\<forall>n cs. children s n = Some cs \<longrightarrow> cs = find_children ops n)"

definition tree_at :: "('n, 'g, 'a, 'f) iface \<Rightarrow> 'n \<Rightarrow> bool" where
  "tree_at ops rt =
     (distinct (find_children ops rt) \<and>
      list_all (\<lambda>b. list_all (\<lambda>c. \<not> (is_child ops)\<^sup>+\<^sup>+ b c) (find_children ops rt))
        (find_children ops rt))"

section \<open>A playout, move by move\<close>

text \<open>
  The words of the specification for a simulation: ask the agent registered for
  the current player for an action and apply it (\<open>agent_step\<close>), \<open>k\<close> times in a row
  (\<open>play_steps\<close>). \<open>plays_to k ops ags game final\<close>: the \<open>k\<close> moves from \<open>game\<close>
  succeed, \<open>final\<close> is the state after them and has a winner, and no state before
  it has one.
\<close>

definition agent_step :: "('n, 'g, 'a, 'f) iface \<Rightarrow> ('g \<Rightarrow> 'a) list \<Rightarrow> 'g \<Rightarrow> py_error + 'g" where
  "agent_step ops ags game =
     (if length ags \<le> nat (PlayerOrder_value (current_player_id ops game)) then Inl IndexError
      else case act ops game ((ags ! nat (PlayerOrder_value (current_player_id ops game))) game) of
             Inl e \<Rightarrow> Inl (Raised e)
           | Inr game' \<Rightarrow> Inr game')"

fun play_steps :: "nat \<Rightarrow> ('n, 'g, 'a, 'f) iface \<Rightarrow> ('g \<Rightarrow> 'a) list \<Rightarrow> 'g \<Rightarrow> py_error + 'g" where
  "play_steps 0 ops ags game = Inr game"
| "play_steps (Suc k) ops ags game =
     (case agent_step ops ags game of
        Inl e \<Rightarrow> Inl e
      | Inr game' \<Rightarrow> play_steps k ops ags game')"

definition plays_to :: "nat \<Rightarrow> ('n, 'g, 'a, 'f) iface \<Rightarrow> ('g \<Rightarrow> 'a) list \<Rightarrow> 'g \<Rightarrow> 'g \<Rightarrow> bool" where
  "plays_to k ops ags game final =
     (play_steps k ops ags game = Inr final \<and> winner ops final \<noteq> None \<and>
      (\<forall>j<k. \<exists>g. play_steps j ops ags game = Inr g \<and> winner ops g = None))"

section \<open>A small game\<close>

text \<open>
  Three states: from \<open>NodeR\<close> the first player moves to \<open>NodeB\<close> or \<open>NodeC\<close>, from
  \<open>NodeC\<close> the second player moves to \<open>NodeB\<close>, and \<open>NodeB\<close> is won by the second
  player. \<open>NodeB\<close> is reached from \<open>NodeR\<close> in one move and in two. A node is its
  state, an action is the state it leads to, and both agents move to \<open>NodeB\<close>. The
  floats of this game are the real numbers with their exact arithmetic, one of the
  arithmetics the interface admits. The runs below compare two keys only where one
  is \<open>- 1 + t\<close> and the other \<open>1 + t\<close> for the same \<open>t\<close> between 1 and 2, or where both
  are minus infinity: rounding the operations to doubles keeps these comparisons.
\<close>

datatype ex_node = NodeR | NodeB | NodeC

fun ex_children :: "ex_node \<Rightarrow> ex_node list" where
  "ex_children NodeR = [NodeB, NodeC]"
| "ex_children NodeC = [NodeB]"
| "ex_children NodeB = []"

definition ex_ops :: "(ex_node, ex_node, ex_node, real) iface" where
  "ex_ops =
     \<lparr>is_terminal = (\<lambda>n. n = NodeB), find_children = ex_children,
      find_random_child = (\<lambda>n. NodeB), state = (\<lambda>n. n), clone = (\<lambda>g. g),
      winner = (\<lambda>g. if g = NodeB then Some SECOND else None),
      current_player_id = (\<lambda>g. if g = NodeC then SECOND else FIRST),
      act = (\<lambda>g a. Inr a),
      float_div_int = (\<lambda>q n. Inr (real_of_int q / real_of_int n)),
      float_log = (\<lambda>n. Inr (ln (real_of_int n))),
      float_div = (\<lambda>x n. Inr (x / real_of_int n)),
      float_sqrt = (\<lambda>x. if x < 0 then Inl FloatValueError else Inr (sqrt x)),
      float_mul = (\<lambda>x y. x * y), float_add = (\<lambda>x y. x + y), float_1_41 = 141 / 100\<rparr>"

definition ex_agents :: "(ex_node \<Rightarrow> ex_node) list" where
  "ex_agents = [\<lambda>g. NodeB, \<lambda>g. NodeB]"

text \<open>An instance of the searcher on the small game, with the tables given.\<close>

definition ex_state ::
  "(ex_node \<rightharpoonup> int) \<Rightarrow> (ex_node \<rightharpoonup> int) \<Rightarrow> (ex_node \<rightharpoonup> ex_node list)
     \<Rightarrow> (ex_node, ex_node, ex_node, real) MCTS" where
  "ex_state q n c =
     \<lparr>agents = ex_agents, Q = q, N = n, children = c, exploration_weight = 141 / 100\<rparr>"

text \<open>The instances the rollouts from \<open>NodeR\<close> and from \<open>NodeC\<close> pass through.\<close>

definition ex_s0 :: "(ex_node, ex_node, ex_node, real) MCTS" where
  "ex_s0 = ex_state Map.empty Map.empty Map.empty"

definition ex_s1 :: "(ex_node, ex_node, ex_node, real) MCTS" where
  "ex_s1 = ex_state [NodeR \<mapsto> - 1] [NodeR \<mapsto> 1] [NodeR \<mapsto> [NodeB, NodeC]]"

definition ex_s2 :: "(ex_node, ex_node, ex_node, real) MCTS" where
  "ex_s2 = ex_state [NodeR \<mapsto> - 2, NodeC \<mapsto> 1] [NodeR \<mapsto> 2, NodeC \<mapsto> 1]
             [NodeR \<mapsto> [NodeB, NodeC], NodeC \<mapsto> [NodeB]]"

definition ex_tables :: "int \<Rightarrow> int \<Rightarrow> int \<Rightarrow> int \<Rightarrow> int \<Rightarrow> int \<Rightarrow> (ex_node, ex_node, ex_node, real) MCTS" where
  "ex_tables qr qc qb nr nc nb =
     ex_state [NodeR \<mapsto> qr, NodeC \<mapsto> qc, NodeB \<mapsto> qb] [NodeR \<mapsto> nr, NodeC \<mapsto> nc, NodeB \<mapsto> nb]
       [NodeR \<mapsto> [NodeB, NodeC], NodeC \<mapsto> [NodeB], NodeB \<mapsto> []]"

definition ex_s3 :: "(ex_node, ex_node, ex_node, real) MCTS" where
  "ex_s3 = ex_tables (- 3) 1 (- 1) 3 1 1"

definition ex_s4 :: "(ex_node, ex_node, ex_node, real) MCTS" where
  "ex_s4 = ex_tables (- 4) 2 (- 2) 4 2 2"

definition ex_s5 :: "(ex_node, ex_node, ex_node, real) MCTS" where
  "ex_s5 = ex_tables (- 5) 3 (- 3) 5 3 3"

definition exC_s1 :: "(ex_node, ex_node, ex_node, real) MCTS" where
  "exC_s1 = ex_state [NodeC \<mapsto> 1] [NodeC \<mapsto> 1] [NodeC \<mapsto> [NodeB]]"

definition exC_s2 :: "(ex_node, ex_node, ex_node, real) MCTS" where
  "exC_s2 = ex_state [NodeC \<mapsto> 2, NodeB \<mapsto> - 1] [NodeC \<mapsto> 2, NodeB \<mapsto> 1]
              [NodeC \<mapsto> [NodeB], NodeB \<mapsto> []]"

definition exC_s3 :: "(ex_node, ex_node, ex_node, real) MCTS" where
  "exC_s3 = ex_state [NodeC \<mapsto> 3, NodeB \<mapsto> - 2] [NodeC \<mapsto> 3, NodeB \<mapsto> 2]
              [NodeC \<mapsto> [NodeB], NodeB \<mapsto> []]"

text \<open>
  Two instances for the cases in which a key raises. In \<open>ex_zero\<close> the child \<open>NodeB\<close>
  of \<open>NodeR\<close> is a key of \<open>children\<close> and has no visit. \<open>ovf_ops\<close> is the small game
  with floats that end at 2: the quotient of two ints beyond it raises
  \<^verbatim>\<open>OverflowError\<close>, as \<^verbatim>\<open>q / n\<close> does in Python beyond the largest float; in \<open>ex_ovf\<close>
  the quotient of \<open>NodeB\<close> is 5.
\<close>

definition ex_zero :: "(ex_node, ex_node, ex_node, real) MCTS" where
  "ex_zero = ex_state Map.empty [NodeR \<mapsto> 1] [NodeR \<mapsto> [NodeB], NodeB \<mapsto> []]"

definition ovf_ops :: "(ex_node, ex_node, ex_node, real) iface" where
  "ovf_ops =
     ex_ops\<lparr>float_div_int :=
       (\<lambda>q n. if 2 * \<bar>n\<bar> < \<bar>q\<bar> then Inl FloatOverflowError
              else Inr (real_of_int q / real_of_int n))\<rparr>"

definition ex_ovf :: "(ex_node, ex_node, ex_node, real) MCTS" where
  "ex_ovf = ex_state [NodeB \<mapsto> 5] [NodeB \<mapsto> 1] [NodeR \<mapsto> [NodeB, NodeC]]"

text \<open>
  A game of one node that is not terminal and has no child: its state has no winner,
  the player to move can only give up, which the engine answers with a win of the
  second player. \<open>stuck_state\<close> is the instance after one rollout from that node.
\<close>

definition stuck_ops :: "(unit, bool, unit, real) iface" where
  "stuck_ops =
     \<lparr>is_terminal = (\<lambda>n. False), find_children = (\<lambda>n. []),
      find_random_child = (\<lambda>n. ()), state = (\<lambda>n. False), clone = (\<lambda>g. g),
      winner = (\<lambda>g. if g then Some SECOND else None), current_player_id = (\<lambda>g. FIRST),
      act = (\<lambda>g a. Inr True),
      float_div_int = (\<lambda>q n. Inr (real_of_int q / real_of_int n)),
      float_log = (\<lambda>n. Inr (ln (real_of_int n))),
      float_div = (\<lambda>x n. Inr (x / real_of_int n)),
      float_sqrt = (\<lambda>x. if x < 0 then Inl FloatValueError else Inr (sqrt x)),
      float_mul = (\<lambda>x y. x * y), float_add = (\<lambda>x y. x + y), float_1_41 = 141 / 100\<rparr>"

definition stuck_agents :: "(bool \<Rightarrow> unit) list" where
  "stuck_agents = [\<lambda>g. (), \<lambda>g. ()]"

definition stuck_state :: "(unit, bool, unit, real) MCTS" where
  "stuck_state =
     \<lparr>agents = stuck_agents, Q = [() \<mapsto> - 1], N = [() \<mapsto> 1], children = [() \<mapsto> []],
      exploration_weight = 141 / 100\<rparr>"

section \<open>algorithms/mcts.py on a store of dictionaries\<close>

text \<open>
  Whether two instances share a table is a question about references, which the
  records above cannot ask: there an instance holds its tables by value. In this
  section the code is embedded a second time, with the dictionaries as objects of a
  store and the attributes \<^verbatim>\<open>self.Q\<close>, \<^verbatim>\<open>self.N\<close> and \<^verbatim>\<open>self.children\<close> as references to
  them: every read and every write of the code goes through the reference of the
  attribute, and two instances, or two attributes of one instance, may hold the same
  reference.

  \<open>int_dicts h r\<close> is the \<^verbatim>\<open>defaultdict(int)\<close> at the reference \<open>r\<close> of the store \<open>h\<close>,
  \<open>list_dicts h r\<close> the \<^verbatim>\<open>defaultdict(list)\<close>; \<open>int_next\<close> and \<open>list_next\<close> count the
  dictionaries created so far, and the next one created gets that number as its
  reference. The lists stored in \<open>children\<close> are values: no statement of the code
  changes one of them (\<^verbatim>\<open>unexplored\<close> is a new list).
\<close>

type_synonym ref = nat

record 'n store =
  int_dicts :: "ref \<Rightarrow> ('n \<rightharpoonup> int)"
  list_dicts :: "ref \<Rightarrow> ('n \<rightharpoonup> 'n list)"
  int_next :: ref
  list_next :: ref

definition empty_store :: "'n store" where
  "empty_store =
     \<lparr>int_dicts = (\<lambda>r. Map.empty), list_dicts = (\<lambda>r. Map.empty), int_next = 0, list_next = 0\<rparr>"

text \<open>\<^verbatim>\<open>defaultdict(int)\<close> and \<^verbatim>\<open>defaultdict(list)\<close>: a new, empty dictionary.\<close>

definition new_int_dict :: "'n store \<Rightarrow> ref \<times> 'n store" where
  "new_int_dict h =
     (int_next h, h\<lparr>int_dicts := (int_dicts h)(int_next h := Map.empty),
                    int_next := Suc (int_next h)\<rparr>)"

definition new_list_dict :: "'n store \<Rightarrow> ref \<times> 'n store" where
  "new_list_dict h =
     (list_next h, h\<lparr>list_dicts := (list_dicts h)(list_next h := Map.empty),
                     list_next := Suc (list_next h)\<rparr>)"

text \<open>
  \<^verbatim>\<open>d[k]\<close>, \<^verbatim>\<open>d[k] = v\<close> and \<^verbatim>\<open>k in d\<close> for the dictionary \<open>d\<close> at a reference. A read
  of a missing key stores the default in that dictionary.
\<close>

definition int_get :: "'n store \<Rightarrow> ref \<Rightarrow> 'n \<Rightarrow> int \<times> 'n store" where
  "int_get h r k =
     (case dd_get 0 (int_dicts h r) k of (v, m) \<Rightarrow> (v, h\<lparr>int_dicts := (int_dicts h)(r := m)\<rparr>))"

definition int_set :: "'n store \<Rightarrow> ref \<Rightarrow> 'n \<Rightarrow> int \<Rightarrow> 'n store" where
  "int_set h r k v = h\<lparr>int_dicts := (int_dicts h)(r := (int_dicts h r)(k \<mapsto> v))\<rparr>"

definition list_get :: "'n store \<Rightarrow> ref \<Rightarrow> 'n \<Rightarrow> 'n list \<times> 'n store" where
  "list_get h r k =
     (case dd_get [] (list_dicts h r) k of (v, m) \<Rightarrow> (v, h\<lparr>list_dicts := (list_dicts h)(r := m)\<rparr>))"

definition list_set :: "'n store \<Rightarrow> ref \<Rightarrow> 'n \<Rightarrow> 'n list \<Rightarrow> 'n store" where
  "list_set h r k v = h\<lparr>list_dicts := (list_dicts h)(r := (list_dicts h r)(k \<mapsto> v))\<rparr>"

definition list_has :: "'n store \<Rightarrow> ref \<Rightarrow> 'n \<Rightarrow> bool" where
  "list_has h r k = (list_dicts h r k \<noteq> None)"

subsection \<open>\_\_init\_\_\<close>

text \<open>
  An instance is the values of its attributes: the agents, the exploration weight
  and the references of its three dictionaries. \<^verbatim>\<open>__init__\<close> is the only place where
  the code assigns to an attribute of \<^verbatim>\<open>self\<close>, so an instance does not change after
  its construction; what changes is the dictionaries in the store.
  \<^verbatim>\<open>self.agents = agents
  self.Q = defaultdict(int)
  self.N = defaultdict(int)
  self.children = defaultdict(list)
  self.exploration_weight = exploration_weight\<close>
\<close>

record ('g, 'a, 'f) MCTS_ref =
  self_agents :: "('g \<Rightarrow> 'a) list"
  self_Q :: ref
  self_N :: ref
  self_children :: ref
  self_exploration_weight :: 'f

definition MCTS_new ::
  "'n store \<Rightarrow> ('g \<Rightarrow> 'a) list \<Rightarrow> 'f \<Rightarrow> ('g, 'a, 'f) MCTS_ref \<times> 'n store" where
  "MCTS_new h ags w =
     (case new_int_dict h of (q, h1) \<Rightarrow>
      case new_int_dict h1 of (n, h2) \<Rightarrow>
      case new_list_dict h2 of (c, h3) \<Rightarrow>
        (\<lparr>self_agents = ags, self_Q = q, self_N = n, self_children = c,
          self_exploration_weight = w\<rparr>, h3))"

subsection \<open>choose\<close>

text \<open>
  A method returns its result, or the exception it raises, and the store it leaves:
  what it has written before an exception stays written. The keys of a \<^verbatim>\<open>max\<close> are
  computed in order, as in \<open>keys_of\<close>.
\<close>

fun keys_on ::
  "('s \<Rightarrow> 'x \<Rightarrow> (py_error + 'k) \<times> 's) \<Rightarrow> 's \<Rightarrow> 'x list \<Rightarrow> (py_error + ('k \<times> 'x) list) \<times> 's" where
  "keys_on f h [] = (Inr [], h)"
| "keys_on f h (x # xs) =
     (case f h x of
        (Inl e, h1) \<Rightarrow> (Inl e, h1)
      | (Inr k, h1) \<Rightarrow>
          (case keys_on f h1 xs of
             (Inl e, h2) \<Rightarrow> (Inl e, h2)
           | (Inr ks, h2) \<Rightarrow> (Inr ((k, x) # ks), h2)))"

text \<open>
  \<^verbatim>\<open>def score(n):
      if self.N[n] == 0: return float("-inf")
      return self.Q[n] / self.N[n]\<close>
\<close>

definition score_on ::
  "('n, 'g, 'a, 'f) iface \<Rightarrow> ('g, 'a, 'f) MCTS_ref \<Rightarrow> 'n store \<Rightarrow> 'n
     \<Rightarrow> (py_error + 'f option) \<times> 'n store" where
  "score_on ops self h n =
     (case int_get h (self_N self) n of (nv, h1) \<Rightarrow>
        if nv = 0 then (Inr None, h1)
        else (case int_get h1 (self_Q self) n of (qv, h2) \<Rightarrow>
              case int_get h2 (self_N self) n of (nv', h3) \<Rightarrow>
                if nv' = 0 then (Inl ZeroDivisionError, h3)
                else (case float_div_int ops qv nv' of
                        Inl e \<Rightarrow> (Inl (raise_float e), h3)
                      | Inr x \<Rightarrow> (Inr (Some x), h3))))"

text \<open>
  \<^verbatim>\<open>if node.is_terminal(): raise RuntimeError(...)
  if node not in self.children: return node.find_random_child()
  return max(self.children[node], key=score)\<close>
\<close>

definition choose_on ::
  "('n, 'g, 'a, 'f::order) iface \<Rightarrow> ('g, 'a, 'f) MCTS_ref \<Rightarrow> 'n store \<Rightarrow> 'n
     \<Rightarrow> (py_error + 'n) \<times> 'n store" where
  "choose_on ops self h node =
     (if is_terminal ops node then (Inl RuntimeError, h)
      else if \<not> list_has h (self_children self) node then (Inr (find_random_child ops node), h)
      else (case list_get h (self_children self) node of (cs, h1) \<Rightarrow>
            case keys_on (score_on ops self) h1 cs of
              (Inl e, h2) \<Rightarrow> (Inl e, h2)
            | (Inr ks, h2) \<Rightarrow> (case py_max ks of Inl e \<Rightarrow> (Inl e, h2) | Inr n \<Rightarrow> (Inr n, h2))))"

subsection \<open>\_uct\_select\<close>

text \<open>
  \<^verbatim>\<open>def uct(n):
      return self.Q[n] / self.N[n] + self.exploration_weight * math.sqrt(
          log_n_vertex / self.N[n])\<close>
\<close>

definition uct_on ::
  "('n, 'g, 'a, 'f) iface \<Rightarrow> ('g, 'a, 'f) MCTS_ref \<Rightarrow> 'f \<Rightarrow> 'n store \<Rightarrow> 'n
     \<Rightarrow> (py_error + 'f) \<times> 'n store" where
  "uct_on ops self log_n_vertex h n =
     (case int_get h (self_Q self) n of (qv, h1) \<Rightarrow>
      case int_get h1 (self_N self) n of (nv, h2) \<Rightarrow>
        if nv = 0 then (Inl ZeroDivisionError, h2)
        else (case float_div_int ops qv nv of
                Inl e \<Rightarrow> (Inl (raise_float e), h2)
              | Inr a \<Rightarrow>
                  (case int_get h2 (self_N self) n of (nv', h3) \<Rightarrow>
                     if nv' = 0 then (Inl ZeroDivisionError, h3)
                     else (case float_div ops log_n_vertex nv' of
                             Inl e \<Rightarrow> (Inl (raise_float e), h3)
                           | Inr x \<Rightarrow>
                               (case float_sqrt ops x of
                                  Inl e \<Rightarrow> (Inl (raise_float e), h3)
                                | Inr r \<Rightarrow>
                                    (Inr (float_add ops a
                                            (float_mul ops (self_exploration_weight self) r)),
                                     h3))))))"

text \<open>
  \<^verbatim>\<open>assert all(n in self.children for n in self.children[node])
  log_n_vertex = math.log(self.N[node])
  return max(self.children[node], key=uct)\<close>
\<close>

definition uct_select_on ::
  "('n, 'g, 'a, 'f::order) iface \<Rightarrow> ('g, 'a, 'f) MCTS_ref \<Rightarrow> 'n store \<Rightarrow> 'n
     \<Rightarrow> (py_error + 'n) \<times> 'n store" where
  "uct_select_on ops self h node =
     (case list_get h (self_children self) node of (cs, h1) \<Rightarrow>
        if \<not> list_all (\<lambda>n. list_has h1 (self_children self) n) cs then (Inl AssertionError, h1)
        else (case int_get h1 (self_N self) node of (nv, h2) \<Rightarrow>
          if nv \<le> 0 then (Inl ValueError, h2)
          else (case float_log ops nv of
                  Inl e \<Rightarrow> (Inl (raise_float e), h2)
                | Inr log_n_vertex \<Rightarrow>
                    (case list_get h2 (self_children self) node of (cs', h3) \<Rightarrow>
                     case keys_on (uct_on ops self log_n_vertex) h3 cs' of
                       (Inl e, h4) \<Rightarrow> (Inl e, h4)
                     | (Inr ks, h4) \<Rightarrow>
                         (case py_max ks of Inl e \<Rightarrow> (Inl e, h4) | Inr n \<Rightarrow> (Inr n, h4))))))"

subsection \<open>\_select\<close>

text \<open>
  The loop of \<^verbatim>\<open>_select\<close> has no bound. Here it is run for at most \<open>fuel\<close> passes: the
  result is \<open>None\<close> where the loop has not returned by then, together with the store
  as the passes made have left it. So what is proved of the store for every \<open>fuel\<close>
  holds at every moment of a call, whether the call returns or not.
\<close>

fun select_loop_on ::
  "nat \<Rightarrow> ('n, 'g, 'a, 'f::order) iface \<Rightarrow> ('g, 'a, 'f) MCTS_ref \<Rightarrow> 'n store \<Rightarrow> 'n \<Rightarrow> 'n list
     \<Rightarrow> (py_error + 'n list) option \<times> 'n store" where
  "select_loop_on 0 ops self h node path = (None, h)"
| "select_loop_on (Suc fuel) ops self h node path =
     (if \<not> list_has h (self_children self) node then (Some (Inr (path @ [node])), h)
      else (case list_get h (self_children self) node of (cs, h1) \<Rightarrow>
        if cs = [] \<or> is_terminal ops node then (Some (Inr (path @ [node])), h1)
        else (case list_get h1 (self_children self) node of (cs', h2) \<Rightarrow>
          if filter (\<lambda>item. \<not> list_has h2 (self_children self) item) cs' \<noteq> []
          then (Some (Inr (path @ [node]
                  @ [last (filter (\<lambda>item. \<not> list_has h2 (self_children self) item) cs')])), h2)
          else (case uct_select_on ops self h2 node of
                  (Inl e, h3) \<Rightarrow> (Some (Inl e), h3)
                | (Inr n, h3) \<Rightarrow> select_loop_on fuel ops self h3 n (path @ [node])))))"

definition select_on ::
  "nat \<Rightarrow> ('n, 'g, 'a, 'f::order) iface \<Rightarrow> ('g, 'a, 'f) MCTS_ref \<Rightarrow> 'n store \<Rightarrow> 'n
     \<Rightarrow> (py_error + 'n list) option \<times> 'n store" where
  "select_on fuel ops self h node = select_loop_on fuel ops self h node []"

subsection \<open>\_expand, \_simulate, \_backpropagate\<close>

text \<open>
  \<^verbatim>\<open>if node in self.children: return
  self.children[node] = node.find_children()\<close>
\<close>

definition expand_on ::
  "('n, 'g, 'a, 'f) iface \<Rightarrow> ('g, 'a, 'f) MCTS_ref \<Rightarrow> 'n store \<Rightarrow> 'n \<Rightarrow> 'n store" where
  "expand_on ops self h node =
     (if list_has h (self_children self) node then h
      else list_set h (self_children self) node (find_children ops node))"

text \<open>
  \<^verbatim>\<open>_simulate\<close> reads \<^verbatim>\<open>self.agents\<close> and works on a clone of the node's state: it
  neither reads nor writes a dictionary of the store. Its loop is \<open>simulate_loop\<close>.
\<close>

definition simulate_on ::
  "('n, 'g, 'a, 'f) iface \<Rightarrow> ('g, 'a, 'f) MCTS_ref \<Rightarrow> 'n \<Rightarrow> (py_error + int) option" where
  "simulate_on ops self node =
     (case simulate_loop ops (self_agents self) (clone ops (state ops node)) of
        None \<Rightarrow> None
      | Some (Inl e) \<Rightarrow> Some (Inl e)
      | Some (Inr game) \<Rightarrow> Some (Inr (if winner ops game = Some FIRST then 1 else - 1)))"

text \<open>
  \<^verbatim>\<open>self.N[node] += 1
  if node.state.current_player.id == PlayerOrder.FIRST: self.Q[node] += reward
  else: self.Q[node] -= reward\<close>
\<close>

definition backpropagate_step_on ::
  "('n, 'g, 'a, 'f) iface \<Rightarrow> ('g, 'a, 'f) MCTS_ref \<Rightarrow> int \<Rightarrow> 'n store \<Rightarrow> 'n \<Rightarrow> 'n store" where
  "backpropagate_step_on ops self reward h node =
     (case int_get h (self_N self) node of (nv, h1) \<Rightarrow>
      case int_get (int_set h1 (self_N self) node (nv + 1)) (self_Q self) node of (qv, h2) \<Rightarrow>
        if current_player_id ops (state ops node) = FIRST
        then int_set h2 (self_Q self) node (qv + reward)
        else int_set h2 (self_Q self) node (qv - reward))"

definition backpropagate_on ::
  "('n, 'g, 'a, 'f) iface \<Rightarrow> ('g, 'a, 'f) MCTS_ref \<Rightarrow> 'n store \<Rightarrow> 'n list \<Rightarrow> int \<Rightarrow> 'n store" where
  "backpropagate_on ops self h path reward =
     foldl (backpropagate_step_on ops self reward) h (rev path)"

subsection \<open>do\_rollout\<close>

text \<open>
  \<^verbatim>\<open>path = self._select(node); leaf = path[-1]
  self._expand(leaf)
  reward = self._simulate(leaf)
  self._backpropagate(path, reward)\<close>
  The result is \<open>None\<close> where the selection has not returned within \<open>fuel\<close> passes or
  the simulation does not return.
\<close>

definition do_rollout_on ::
  "nat \<Rightarrow> ('n, 'g, 'a, 'f::order) iface \<Rightarrow> ('g, 'a, 'f) MCTS_ref \<Rightarrow> 'n store \<Rightarrow> 'n
     \<Rightarrow> (py_error + unit) option \<times> 'n store" where
  "do_rollout_on fuel ops self h node =
     (case select_on fuel ops self h node of
        (None, h1) \<Rightarrow> (None, h1)
      | (Some (Inl e), h1) \<Rightarrow> (Some (Inl e), h1)
      | (Some (Inr path), h1) \<Rightarrow>
          if path = [] then (Some (Inl IndexError), h1)
          else (case simulate_on ops self (last path) of
                  None \<Rightarrow> (None, expand_on ops self h1 (last path))
                | Some (Inl e) \<Rightarrow> (Some (Inl e), expand_on ops self h1 (last path))
                | Some (Inr reward) \<Rightarrow>
                    (Some (Inr ()),
                     backpropagate_on ops self (expand_on ops self h1 (last path)) path reward)))"

subsection \<open>Programs that create instances and call them\<close>

text \<open>
  A caller of the class creates instances and calls \<^verbatim>\<open>do_rollout\<close> and \<^verbatim>\<open>choose\<close> on
  them, in any order. Its state is the store and the instances it has created, in
  the order of their creation; a statement names an instance by its position in that
  list (a position that names no instance makes the statement do nothing). The
  caller may catch what a call raises and go on, so the next statement runs after a
  return and after an exception alike; after a call that has not returned, no
  statement runs.
\<close>

datatype ('n, 'g, 'a, 'f) stmt =
    New_MCTS "('g \<Rightarrow> 'a) list" 'f
  | Call_do_rollout nat 'n
  | Call_choose nat 'n

type_synonym ('n, 'g, 'a, 'f) caller = "'n store \<times> ('g, 'a, 'f) MCTS_ref list"

fun exec_stmt ::
  "nat \<Rightarrow> ('n, 'g, 'a, 'f::order) iface \<Rightarrow> ('n, 'g, 'a, 'f) caller \<Rightarrow> ('n, 'g, 'a, 'f) stmt
     \<Rightarrow> bool \<times> ('n, 'g, 'a, 'f) caller" where
  "exec_stmt fuel ops (h, vars) (New_MCTS ags w) =
     (case MCTS_new h ags w of (self, h') \<Rightarrow> (True, (h', vars @ [self])))"
| "exec_stmt fuel ops (h, vars) (Call_do_rollout i node) =
     (if length vars \<le> i then (True, (h, vars))
      else (case do_rollout_on fuel ops (vars ! i) h node of (r, h') \<Rightarrow> (r \<noteq> None, (h', vars))))"
| "exec_stmt fuel ops (h, vars) (Call_choose i node) =
     (if length vars \<le> i then (True, (h, vars))
      else (case choose_on ops (vars ! i) h node of (r, h') \<Rightarrow> (True, (h', vars))))"

fun exec ::
  "nat \<Rightarrow> ('n, 'g, 'a, 'f::order) iface \<Rightarrow> ('n, 'g, 'a, 'f) caller \<Rightarrow> ('n, 'g, 'a, 'f) stmt list
     \<Rightarrow> ('n, 'g, 'a, 'f) caller" where
  "exec fuel ops st [] = st"
| "exec fuel ops st (c # cs) =
     (case exec_stmt fuel ops st c of
        (False, st') \<Rightarrow> st'
      | (True, st') \<Rightarrow> exec fuel ops st' cs)"

text \<open>
  \<open>calls_instance i c\<close>: the statement \<open>c\<close> is a call of a method on the instance at
  position \<open>i\<close>. \<open>tables h self\<close>: the three dictionaries of an instance, as they are
  in the store.
\<close>

fun calls_instance :: "nat \<Rightarrow> ('n, 'g, 'a, 'f) stmt \<Rightarrow> bool" where
  "calls_instance i (New_MCTS ags w) = False"
| "calls_instance i (Call_do_rollout j node) = (j = i)"
| "calls_instance i (Call_choose j node) = (j = i)"

definition tables ::
  "'n store \<Rightarrow> ('g, 'a, 'f) MCTS_ref \<Rightarrow> ('n \<rightharpoonup> int) \<times> ('n \<rightharpoonup> int) \<times> ('n \<rightharpoonup> 'n list)" where
  "tables h self =
     (int_dicts h (self_Q self), int_dicts h (self_N self), list_dicts h (self_children self))"

text \<open>
  \<open>writes_only self h h'\<close>: from \<open>h\<close> to \<open>h'\<close> no dictionary has been created and at
  most the three dictionaries of \<open>self\<close> have changed. \<open>separate\<close> instances have no
  dictionary in common. \<open>view h self\<close> is the instance \<open>self\<close> with its tables as
  they are in \<open>h\<close>, in the form of the first embedding.
\<close>

definition writes_only :: "('g, 'a, 'f) MCTS_ref \<Rightarrow> 'n store \<Rightarrow> 'n store \<Rightarrow> bool" where
  "writes_only self h h' =
     (int_next h' = int_next h \<and> list_next h' = list_next h \<and>
      (\<forall>r. r \<noteq> self_Q self \<and> r \<noteq> self_N self \<longrightarrow> int_dicts h' r = int_dicts h r) \<and>
      (\<forall>r. r \<noteq> self_children self \<longrightarrow> list_dicts h' r = list_dicts h r))"

definition separate :: "('g, 'a, 'f) MCTS_ref \<Rightarrow> ('g, 'a, 'f) MCTS_ref \<Rightarrow> bool" where
  "separate a b =
     (self_Q a \<noteq> self_Q b \<and> self_Q a \<noteq> self_N b \<and> self_N a \<noteq> self_Q b \<and>
      self_N a \<noteq> self_N b \<and> self_children a \<noteq> self_children b)"

definition view :: "'n store \<Rightarrow> ('g, 'a, 'f) MCTS_ref \<Rightarrow> ('n, 'g, 'a, 'f) MCTS" where
  "view h self =
     \<lparr>agents = self_agents self, Q = int_dicts h (self_Q self), N = int_dicts h (self_N self),
      children = list_dicts h (self_children self),
      exploration_weight = self_exploration_weight self\<rparr>"

text \<open>
  \<open>caller_ok\<close>: every instance of the caller holds references of dictionaries that
  have been created, and two instances at different positions are separate.
\<close>

definition caller_ok :: "('n, 'g, 'a, 'f) caller \<Rightarrow> bool" where
  "caller_ok st =
     (case st of (h, vars) \<Rightarrow>
        (\<forall>i<length vars. self_Q (vars ! i) < int_next h \<and> self_N (vars ! i) < int_next h \<and>
                          self_children (vars ! i) < list_next h \<and>
                          self_Q (vars ! i) \<noteq> self_N (vars ! i)) \<and>
        (\<forall>i<length vars. \<forall>j<length vars. i \<noteq> j \<longrightarrow> separate (vars ! i) (vars ! j)))"

text \<open>
  \<open>lift_on self\<close> turns what a method returns on the store into what the method of the
  first embedding returns: the exception without the store, a result with the view
  the instance has of the store.
\<close>

definition lift_on ::
  "('g, 'a, 'f) MCTS_ref \<Rightarrow> (py_error + 'x) \<times> 'n store \<Rightarrow> py_error + ('x \<times> ('n, 'g, 'a, 'f) MCTS)" where
  "lift_on self r = (case r of (Inl e, h) \<Rightarrow> Inl e | (Inr v, h) \<Rightarrow> Inr (v, view h self))"

subsection \<open>Two instances on the small game\<close>

text \<open>
  A caller that creates two instances, and calls one rollout and one \<^verbatim>\<open>choose\<close> on the
  first. \<open>ex_a\<close> and \<open>ex_b\<close> are the two instances, \<open>ex_store q n c\<close> is the store in
  which the tables of \<open>ex_a\<close> are \<open>q\<close>, \<open>n\<close> and \<open>c\<close> and those of \<open>ex_b\<close> are empty.
  \<open>ex_shared\<close> is an instance that no constructor call returns: its \<open>N\<close> is the
  dictionary that is the \<open>N\<close> of \<open>ex_a\<close>.
\<close>

definition ex_prog :: "(ex_node, ex_node, ex_node, real) stmt list" where
  "ex_prog = [New_MCTS ex_agents (141 / 100), New_MCTS ex_agents (141 / 100)]"

definition ex_calls :: "(ex_node, ex_node, ex_node, real) stmt list" where
  "ex_calls = [Call_do_rollout 0 NodeR, Call_choose 0 NodeR]"

definition ex_a :: "(ex_node, ex_node, real) MCTS_ref" where
  "ex_a = \<lparr>self_agents = ex_agents, self_Q = 0, self_N = 1, self_children = 0,
           self_exploration_weight = 141 / 100\<rparr>"

definition ex_b :: "(ex_node, ex_node, real) MCTS_ref" where
  "ex_b = \<lparr>self_agents = ex_agents, self_Q = 2, self_N = 3, self_children = 1,
           self_exploration_weight = 141 / 100\<rparr>"

definition ex_shared :: "(ex_node, ex_node, real) MCTS_ref" where
  "ex_shared = \<lparr>self_agents = ex_agents, self_Q = 2, self_N = 1, self_children = 1,
                self_exploration_weight = 141 / 100\<rparr>"

definition ex_store ::
  "(ex_node \<rightharpoonup> int) \<Rightarrow> (ex_node \<rightharpoonup> int) \<Rightarrow> (ex_node \<rightharpoonup> ex_node list) \<Rightarrow> ex_node store" where
  "ex_store q n c =
     \<lparr>int_dicts = (\<lambda>r. if r = 0 then q else if r = 1 then n else Map.empty),
      list_dicts = (\<lambda>r. if r = 0 then c else Map.empty), int_next = 4, list_next = 2\<rparr>"

section \<open>Lemmas\<close>

subsection \<open>Reads return values and keep the view\<close>

text \<open>
  A read of \<open>Q\<close> or \<open>N\<close> returns the value \<open>Q_of\<close> or \<open>N_of\<close> and an instance that reads alike; a read of \<open>children\<close> at a key changes nothing.
\<close>

lemma same_view_refl [simp]: "same_view s s"
  by (simp add: same_view_def)

lemma same_view_sym: "same_view s t \<Longrightarrow> same_view t s"
  by (simp add: same_view_def)

lemma same_view_trans: "same_view s t \<Longrightarrow> same_view t u \<Longrightarrow> same_view s u"
  by (simp add: same_view_def)

lemma getN_view: "getN s n = (N_of s n, snd (getN s n))" "same_view s (snd (getN s n))"
  by (auto simp: getN_def dd_get_def N_of_def Q_of_def same_view_def fun_eq_iff split: option.splits)

lemma getQ_view: "getQ s n = (Q_of s n, snd (getQ s n))" "same_view s (snd (getQ s n))"
  by (auto simp: getQ_def dd_get_def N_of_def Q_of_def same_view_def fun_eq_iff split: option.splits)

lemma getC_present: "children s n = Some cs \<Longrightarrow> getC s n = (cs, s)"
  by (simp add: getC_def dd_get_def)

lemma getC_missing: "children s n = None \<Longrightarrow> getC s n = ([], s\<lparr>children := (children s)(n \<mapsto> [])\<rparr>)"
  by (simp add: getC_def dd_get_def)

subsection \<open>The keys of uct\<close>

text \<open>
  \<open>uct\<close> and the keys computed from it return the values \<open>uct_val\<close> and \<open>keys_val\<close>, and an instance that reads alike.
\<close>

lemma uct_val_cong: "same_view s t \<Longrightarrow> uct_val ops l s n = uct_val ops l t n"
proof -
  assume v: "same_view s t"
  have n: "N_of s = N_of t" and q: "Q_of s = Q_of t"
    and w: "exploration_weight s = exploration_weight t"
    using v by (auto simp: same_view_def)
  show ?thesis unfolding uct_val_def n q w by (rule refl)
qed

lemma uct_as_val:
  "map_sum id fst (uct ops l s n) = uct_val ops l s n"
proof -
  obtain qv s1 where q: "getQ s n = (qv, s1)" by (cases "getQ s n")
  obtain nv s2 where n: "getN s1 n = (nv, s2)" by (cases "getN s1 n")
  have v1: "same_view s s1" and qv: "qv = Q_of s n" using getQ_view[of s n] q by auto
  have v2: "same_view s1 s2" and nv: "nv = N_of s1 n" using getN_view[of s1 n] n by auto
  have "N_of s1 = N_of s" "exploration_weight s2 = exploration_weight s"
    using v1 v2 by (auto simp: same_view_def)
  then show ?thesis
    by (simp add: uct_def uct_val_def q n qv nv split: sum.splits)
qed

lemma uct_view: "uct ops l s n = Inr (v, s') \<Longrightarrow> same_view s s'"
proof -
  obtain qv s1 where q: "getQ s n = (qv, s1)" by (cases "getQ s n")
  obtain nv s2 where n: "getN s1 n = (nv, s2)" by (cases "getN s1 n")
  have v1: "same_view s s1" using getQ_view[of s n] q by auto
  have v2: "same_view s1 s2" using getN_view[of s1 n] n by auto
  assume "uct ops l s n = Inr (v, s')"
  then have "s' = s2" by (auto simp: uct_def q n split: if_splits sum.splits)
  then show ?thesis using v1 v2 same_view_trans by blast
qed

lemma keys_of_uct:
  "map_sum id fst (keys_of (uct ops l) s cs) = keys_val (uct_val ops l s) cs \<and>
   (\<forall>ks s'. keys_of (uct ops l) s cs = Inr (ks, s') \<longrightarrow> same_view s s')"
proof (induction cs arbitrary: s)
  case Nil
  show ?case by simp
next
  case (Cons c cs)
  show ?case
  proof (cases "uct ops l s c")
    case (Inl e)
    then have "uct_val ops l s c = Inl e" using uct_as_val[of ops l s c] by simp
    then show ?thesis using Inl by simp
  next
    case (Inr r)
    obtain v s1 where r: "r = (v, s1)" by (cases r)
    have "uct ops l s c = Inr (v, s1)" using Inr r by simp
    then have v1: "same_view s s1" by (rule uct_view)
    have uv: "uct_val ops l s c = Inr v" using uct_as_val[of ops l s c] Inr r by simp
    have eq: "uct_val ops l s1 = uct_val ops l s" using uct_val_cong[OF v1] by (simp add: fun_eq_iff)
    show ?thesis using Cons.IH[of s1] v1 Inr r uv eq
      by (auto split: sum.splits intro: same_view_trans)
  qed
qed

lemma keys_val_Inr:
  "keys_val g xs = Inr ks \<Longrightarrow> map snd ks = xs \<and> (\<forall>(k, x) \<in> set ks. g x = Inr k)"
  by (induction xs arbitrary: ks) (auto split: sum.splits)

lemma keys_val_not_assert:
  "(\<And>x. g x \<noteq> Inl AssertionError) \<Longrightarrow> keys_val g xs \<noteq> Inl AssertionError"
  by (induction xs) (auto split: sum.splits)

subsection \<open>The element max returns\<close>

text \<open>
  The result of \<open>py_max\<close> splits the list: the keys before it differ from its key and
  are not greater, the keys behind it are not greater. The keys are compared by \<open><\<close>
  alone, which need not be total.
\<close>

lemma foldl_max_step:
  "foldl max_step (bk, b) rest = (k, x) \<Longrightarrow>
     \<exists>pre post. (bk, b) # rest = pre @ (k, x) # post \<and>
       (\<forall>(k', x') \<in> set pre. k' \<noteq> k \<and> \<not> k < k') \<and> (\<forall>(k', x') \<in> set post. \<not> k < k') \<and>
       (pre = [] \<or> bk < k)"
proof (induction rest arbitrary: bk b)
  case Nil
  then show ?case by (intro exI[of _ "[]"]) simp
next
  case (Cons a rest)
  obtain ak ax where a: "a = (ak, ax)" by (cases a)
  show ?case
  proof (cases "bk < ak")
    case True
    with Cons.prems a have "foldl max_step (ak, ax) rest = (k, x)" by simp
    from Cons.IH[OF this] obtain pre post where
      pp: "(ak, ax) # rest = pre @ (k, x) # post" "\<forall>(k', x') \<in> set pre. k' \<noteq> k \<and> \<not> k < k'"
          "\<forall>(k', x') \<in> set post. \<not> k < k'" "pre = [] \<or> ak < k" by blast
    have "ak = k \<or> ak < k" using pp by (cases pre) auto
    then have bk: "bk < k" using True by auto
    then have "bk \<noteq> k" "\<not> k < bk" by auto
    then show ?thesis using pp a bk
      by (intro exI[of _ "(bk, b) # pre"] exI[of _ post]) auto
  next
    case False
    with Cons.prems a have "foldl max_step (bk, b) rest = (k, x)" by simp
    from Cons.IH[OF this] obtain pre post where
      pp: "(bk, b) # rest = pre @ (k, x) # post" "\<forall>(k', x') \<in> set pre. k' \<noteq> k \<and> \<not> k < k'"
          "\<forall>(k', x') \<in> set post. \<not> k < k'" "pre = [] \<or> bk < k" by blast
    show ?thesis
    proof (cases pre)
      case Nil
      then have "(bk, b) = (k, x)" "rest = post" using pp by auto
      then show ?thesis using pp a False
        by (intro exI[of _ "[]"] exI[of _ "(ak, ax) # post"]) auto
    next
      case (Cons p pre')
      then have p: "p = (bk, b)" "rest = pre' @ (k, x) # post" using pp by auto
      have bk: "bk < k" using pp Cons by auto
      have "ak \<noteq> k" using bk False by auto
      moreover have "\<not> k < ak" using bk False by (auto dest: less_trans)
      ultimately show ?thesis using pp a Cons p bk
        by (intro exI[of _ "(bk, b) # (ak, ax) # pre'"] exI[of _ post]) auto
    qed
  qed
qed

lemma py_max_Inr:
  "py_max ks = Inr x \<Longrightarrow>
     \<exists>k pre post. ks = pre @ (k, x) # post \<and>
       (\<forall>(k', x') \<in> set pre. k' \<noteq> k \<and> \<not> k < k') \<and> (\<forall>(k', x') \<in> set post. \<not> k < k')"
proof (cases ks)
  case Nil
  assume "py_max ks = Inr x" with Nil show ?thesis by simp
next
  case (Cons a rest)
  assume m: "py_max ks = Inr x"
  obtain bk b where a: "a = (bk, b)" by (cases a)
  obtain k y where f: "foldl max_step (bk, b) rest = (k, y)" by (cases "foldl max_step (bk, b) rest")
  with m Cons a have "y = x" by simp
  with foldl_max_step[OF f] Cons a show ?thesis by blast
qed

lemma py_max_Inl: "py_max ks = Inl e \<Longrightarrow> ks = [] \<and> e = ValueError"
  by (cases ks) auto

lemma py_max_nonempty: "ks \<noteq> [] \<Longrightarrow> \<exists>x. py_max ks = Inr x"
  by (cases ks) auto

subsection \<open>The child \_uct\_select returns\<close>

text \<open>
  \<open>uct_select\<close> returns what \<open>uct_select_val\<close> computes from the values read, a child of the node, and an instance that reads alike.
\<close>

lemma N_of_children_update [simp]: "N_of (s\<lparr>children := c\<rparr>) = N_of s"
  by (simp add: N_of_def fun_eq_iff)

lemma uct_select_as_val: "map_sum id fst (uct_select ops s node) = uct_select_val ops s node"
proof (cases "children s node")
  case None
  obtain nv s2 where n: "getN (s\<lparr>children := (children s)(node \<mapsto> [])\<rparr>) node = (nv, s2)"
    by (cases "getN (s\<lparr>children := (children s)(node \<mapsto> [])\<rparr>) node")
  have nv: "nv = N_of s node"
    using getN_view(1)[of "s\<lparr>children := (children s)(node \<mapsto> [])\<rparr>" node] n by simp
  show ?thesis
    by (simp add: uct_select_def uct_select_val_def children_of_def None getC_missing n nv
             split: sum.splits)
next
  case (Some cs)
  obtain nv s2 where n: "getN s node = (nv, s2)" by (cases "getN s node")
  have nv: "nv = N_of s node" and v: "same_view s s2" using getN_view[of s node] n by auto
  have eq: "uct_val ops l s2 = uct_val ops l s" for l
    using uct_val_cong[OF v] by (simp add: fun_eq_iff)
  have k: "map_sum id fst (keys_of (uct ops l) s2 cs) = keys_val (uct_val ops l s) cs" for l
    using keys_of_uct[of ops l s2 cs] eq by simp
  show ?thesis
  proof (cases "float_log ops (N_of s node)")
    case (Inl e)
    then show ?thesis
      by (simp add: uct_select_def uct_select_val_def children_of_def Some getC_present n nv)
  next
    case (Inr l)
    show ?thesis
      using k[of l]
      by (auto simp: uct_select_def uct_select_val_def children_of_def Some getC_present n nv Inr
               split: sum.splits)
  qed
qed

lemma uct_select_view:
  assumes "uct_select ops s node = Inr (n, s')"
  shows "same_view s s'" and "children s node \<noteq> None"
proof -
  show c: "children s node \<noteq> None"
  proof
    assume None: "children s node = None"
    obtain nv s2 where n: "getN (s\<lparr>children := (children s)(node \<mapsto> [])\<rparr>) node = (nv, s2)"
      by (cases "getN (s\<lparr>children := (children s)(node \<mapsto> [])\<rparr>) node")
    from assms show False
      by (simp add: uct_select_def None getC_missing n split: if_splits sum.splits)
  qed
  then obtain cs where Some: "children s node = Some cs" by auto
  obtain nv s2 where n: "getN s node = (nv, s2)" by (cases "getN s node")
  have v: "same_view s s2" using getN_view[of s node] n by auto
  from assms obtain l ks where "keys_of (uct ops l) s2 cs = Inr (ks, s')"
    by (auto simp: uct_select_def Some getC_present n split: if_splits sum.splits)
  then have "same_view s2 s'" using keys_of_uct[of ops l s2 cs] by simp
  with v show "same_view s s'" by (rule same_view_trans)
qed

lemma uct_select_val_cong: "same_view s t \<Longrightarrow> uct_select_val ops s node = uct_select_val ops t node"
proof -
  assume v: "same_view s t"
  have u: "uct_val ops l s = uct_val ops l t" for l
    using uct_val_cong[OF v] by (simp add: fun_eq_iff)
  have c: "children s = children t" and n: "N_of s = N_of t"
    using v by (auto simp: same_view_def)
  have co: "children_of s = children_of t" using c by (simp add: children_of_def fun_eq_iff)
  show ?thesis unfolding uct_select_val_def c n u co by (rule refl)
qed

lemma uct_select_val_in:
  assumes "uct_select_val ops s node = Inr n"
  shows "\<exists>cs. children s node = Some cs \<and> n \<in> set cs"
proof -
  from assms obtain l ks where k: "keys_val (uct_val ops l s) (children_of s node) = Inr ks"
      and m: "py_max ks = Inr n"
    by (auto simp: uct_select_val_def split: if_splits sum.splits)
  from py_max_Inr[OF m] obtain k pre post where "ks = pre @ (k, n) # post" by blast
  then have "(k, n) \<in> set ks" by simp
  then have "n \<in> set (map snd ks)" by force
  with keys_val_Inr[OF k] have "n \<in> set (children_of s node)" by simp
  then show ?thesis by (cases "children s node") (auto simp: children_of_def)
qed
subsection \<open>The loop of \_select\<close>

text \<open>
  One round of the loop, an induction rule over its rounds, and three facts: the result extends the path by the node, does not depend on the path the loop starts with, and does not depend on default entries.
\<close>

lemma select_loop_unfold:
  "select_loop ops s node path =
     (case select_stop ops s node of
        Some q \<Rightarrow> Some (Inr (path @ q, s))
      | None \<Rightarrow> (case uct_select ops s node of
                   Inl e \<Rightarrow> Some (Inl e)
                 | Inr (n, s1) \<Rightarrow> select_loop ops s1 n (path @ [node])))"
  by (subst select_loop.simps) (simp add: select_stop_def split: option.splits)

lemma select_stop_cong: "same_view s t \<Longrightarrow> select_stop ops s node = select_stop ops t node"
proof -
  assume "same_view s t"
  then have c: "children s = children t" by (simp add: same_view_def)
  show ?thesis unfolding select_stop_def c by (rule refl)
qed

lemma select_loop_induct [consumes 1, case_names stop err step]:
  assumes run: "select_loop ops s node path = Some r"
    and stop: "\<And>s node path q. select_stop ops s node = Some q \<Longrightarrow> P s node path (Inr (path @ q, s))"
    and err: "\<And>s node path e. select_stop ops s node = None \<Longrightarrow> uct_select ops s node = Inl e
                \<Longrightarrow> P s node path (Inl e)"
    and step: "\<And>s node path n s1 r. select_stop ops s node = None \<Longrightarrow>
                 uct_select ops s node = Inr (n, s1) \<Longrightarrow>
                 select_loop ops s1 n (path @ [node]) = Some r \<Longrightarrow>
                 P s1 n (path @ [node]) r \<Longrightarrow> P s node path r"
  shows "P s node path r"
proof -
  have "ops' = ops \<longrightarrow> select_loop ops s node path = Some r \<and> P s node path r"
    if run': "select_loop ops' s node path = Some r" for ops'
  proof (rule select_loop.raw_induct[where P = "\<lambda>ops' s node path r.
            ops' = ops \<longrightarrow> select_loop ops s node path = Some r \<and> P s node path r",
          OF _ run'], goal_cases)
    case (1 f ops' s node path r)
    show ?case
    proof
      assume o: "ops' = ops"
      show "select_loop ops s node path = Some r \<and> P s node path r"
      proof (cases "select_stop ops s node")
        case (Some q)
        have "r = Inr (path @ q, s)"
          using "1"(2) Some o
          by (auto simp: select_stop_def split: option.splits if_splits)
        then show ?thesis using Some stop[OF Some] by (simp add: select_loop_unfold)
      next
        case None
        show ?thesis
        proof (cases "uct_select ops s node")
          case (Inl e)
          have "r = Inl e"
            using "1"(2) None o Inl
            by (auto simp: select_stop_def split: option.splits if_splits)
          then show ?thesis using None Inl err[OF None Inl] by (simp add: select_loop_unfold)
        next
          case (Inr x)
          obtain n s1 where x: "x = (n, s1)" by (cases x)
          have "f ops s1 n (path @ [node]) = Some r"
            using "1"(2) None o Inr x
            by (auto simp: select_stop_def split: option.splits if_splits)
          from "1"(1)[OF this]
          have ih: "select_loop ops s1 n (path @ [node]) = Some r" "P s1 n (path @ [node]) r"
            by simp_all
          have u: "uct_select ops s node = Inr (n, s1)" using Inr x by simp
          show ?thesis using step[OF None u ih] ih(1) None u by (simp add: select_loop_unfold)
        qed
      qed
    qed
  qed
  with run show ?thesis by blast
qed

lemma select_stop_hd: "select_stop ops s node = Some q \<Longrightarrow> \<exists>q'. q = node # q'"
  by (auto simp: select_stop_def split: option.splits if_splits)

lemma select_loop_path:
  assumes "select_loop ops s node path = Some r"
  shows "\<forall>p s'. r = Inr (p, s') \<longrightarrow> (\<exists>q. p = path @ node # q) \<and> same_view s s'"
  using assms
proof (induction rule: select_loop_induct)
  case (stop s node path q)
  then show ?case using select_stop_hd by fastforce
next
  case (err s node path e)
  then show ?case by simp
next
  case (step s node path n s1 r)
  have "same_view s s1" using step.hyps(2) by (rule uct_select_view)
  then show ?case using step.IH by (auto intro: same_view_trans)
qed

lemma select_loop_repath:
  assumes "select_loop ops s node path = Some r"
  shows "select_loop ops s node path' = Some (repath path path' r)"
  using assms
proof (induction arbitrary: path' rule: select_loop_induct)
  case (stop s node path q)
  then show ?case by (simp add: select_loop_unfold repath_def)
next
  case (err s node path e)
  then show ?case by (simp add: select_loop_unfold repath_def)
next
  case (step s node path n s1 r)
  have "repath (path @ [node]) (path' @ [node]) r = repath path path' r"
  proof (cases r)
    case (Inl e)
    then show ?thesis by (simp add: repath_def)
  next
    case (Inr x)
    obtain p s' where x: "x = (p, s')" by (cases x)
    from select_loop_path[OF step.hyps(3)] Inr x obtain q where "p = (path @ [node]) @ n # q"
      by auto
    then show ?thesis using Inr x by (simp add: repath_def)
  qed
  then show ?case using step.IH[of "path' @ [node]"] step.hyps(1,2)
    by (simp add: select_loop_unfold)
qed

lemma select_loop_view_some:
  assumes "select_loop ops s node path = Some r" and "same_view s t"
  shows "\<exists>r'. select_loop ops t node path = Some r' \<and> map_sum id fst r' = map_sum id fst r"
  using assms
proof (induction arbitrary: t rule: select_loop_induct)
  case (stop s node path q)
  then show ?case using select_stop_cong[OF stop.prems, of ops node]
    by (simp add: select_loop_unfold)
next
  case (err s node path e)
  have "map_sum id fst (uct_select ops t node) = Inl e"
    using uct_select_as_val[of ops t node] uct_select_as_val[of ops s node]
          uct_select_val_cong[OF err.prems, of ops node] err.hyps(2) by simp
  then have "uct_select ops t node = Inl e" by (cases "uct_select ops t node") auto
  then show ?case using err.hyps(1) select_stop_cong[OF err.prems, of ops node]
    by (simp add: select_loop_unfold)
next
  case (step s node path n s1 r)
  have "map_sum id fst (uct_select ops t node) = Inr n"
    using uct_select_as_val[of ops t node] uct_select_as_val[of ops s node]
          uct_select_val_cong[OF step.prems, of ops node] step.hyps(2) by simp
  then obtain t1 where u: "uct_select ops t node = Inr (n, t1)"
    by (cases "uct_select ops t node") auto
  have "same_view s s1" using step.hyps(2) by (rule uct_select_view)
  moreover have "same_view t t1" using u by (rule uct_select_view)
  ultimately have "same_view s1 t1"
    using step.prems same_view_sym same_view_trans by blast
  from step.IH[OF this] show ?case
    using u step.hyps(1) select_stop_cong[OF step.prems, of ops node]
    by (simp add: select_loop_unfold)
qed

lemma select_loop_view:
  assumes "same_view s t"
  shows "res_path (select_loop ops s node path) = res_path (select_loop ops t node path)"
proof (cases "select_loop ops s node path")
  case None
  show ?thesis
  proof (cases "select_loop ops t node path")
    case None
    with \<open>select_loop ops s node path = None\<close> show ?thesis by simp
  next
    case (Some r')
    from select_loop_view_some[OF Some same_view_sym[OF assms]] None show ?thesis by simp
  qed
next
  case (Some r)
  from select_loop_view_some[OF Some assms] Some show ?thesis by (auto simp: res_path_def)
qed

subsection \<open>The path of a selection\<close>

text \<open>
  Every node of the path selects the rest of the path; so no node is repeated, and each node is followed by one of its recorded children.
\<close>

lemma sel_stop: "select_stop ops s node = Some q \<Longrightarrow> sel ops s node = Some (Inr q)"
  by (simp add: sel_def res_path_def select_loop_unfold)

lemma sel_err:
  "select_stop ops s node = None \<Longrightarrow> uct_select_val ops s node = Inl e \<Longrightarrow> sel ops s node = Some (Inl e)"
proof -
  assume a: "select_stop ops s node = None" "uct_select_val ops s node = Inl e"
  then have "uct_select ops s node = Inl e"
    using uct_select_as_val[of ops s node] by (cases "uct_select ops s node") auto
  with a show ?thesis by (simp add: sel_def res_path_def select_loop_unfold)
qed

lemma sel_step:
  assumes "select_stop ops s node = None" and "uct_select_val ops s node = Inr n"
  shows "sel ops s node = map_option (map_sum id ((#) node)) (sel ops s n)"
proof -
  obtain s1 where u: "uct_select ops s node = Inr (n, s1)"
    using uct_select_as_val[of ops s node] assms(2) by (cases "uct_select ops s node") auto
  have v: "same_view s s1" using u by (rule uct_select_view)
  have 1: "select_loop ops s node [] = select_loop ops s1 n [node]"
    using assms(1) u by (simp add: select_loop_unfold)
  have 2: "res_path (select_loop ops s1 n [node])
           = map_option (map_sum id ((#) node)) (res_path (select_loop ops s1 n []))"
  proof (cases "select_loop ops s1 n []")
    case None
    have "select_loop ops s1 n [node] = None"
    proof (rule ccontr)
      assume "select_loop ops s1 n [node] \<noteq> None"
      then obtain r where "select_loop ops s1 n [node] = Some r" by auto
      from select_loop_repath[OF this, of "[]"] None show False by simp
    qed
    with None show ?thesis by (simp add: res_path_def)
  next
    case (Some r)
    from select_loop_repath[OF Some, of "[node]"]
    show ?thesis using Some
      by (cases r) (auto simp: res_path_def repath_def)
  qed
  show ?thesis
    unfolding sel_def 1 2 using select_loop_view[OF v, of ops n "[]"] by simp
qed

lemma sel_cases [consumes 1, case_names stop step]:
  assumes "sel ops s node = Some (Inr p)"
    and "\<And>q. select_stop ops s node = Some q \<Longrightarrow> p = q \<Longrightarrow> thesis"
    and "\<And>n p'. select_stop ops s node = None \<Longrightarrow> uct_select_val ops s node = Inr n \<Longrightarrow>
            sel ops s n = Some (Inr p') \<Longrightarrow> p = node # p' \<Longrightarrow> thesis"
  shows thesis
proof (cases "select_stop ops s node")
  case (Some q)
  with assms(1) sel_stop[OF Some] assms(2) show ?thesis by simp
next
  case None
  show ?thesis
  proof (cases "uct_select_val ops s node")
    case (Inl e)
    with sel_err[OF None Inl] assms(1) show ?thesis by simp
  next
    case (Inr n)
    from sel_step[OF None Inr] assms(1) obtain p' where "sel ops s n = Some (Inr p')" "p = node # p'"
      by (cases "sel ops s n") (auto simp: map_sum_def split: sum.splits)
    with assms(3)[OF None Inr] show ?thesis by blast
  qed
qed

lemma sel_hd: "sel ops s node = Some (Inr p) \<Longrightarrow> \<exists>q. p = node # q"
  by (erule sel_cases) (auto dest: select_stop_hd)

lemma sel_suffix:
  "sel ops s node = Some (Inr p) \<Longrightarrow> i < length p \<Longrightarrow> sel ops s (p ! i) = Some (Inr (drop i p))"
proof (induction p arbitrary: node i rule: length_induct)
  case (1 p)
  from "1.prems"(1) show ?case
  proof (cases rule: sel_cases)
    case (stop q)
    show ?thesis
    proof (cases i)
      case 0
      then show ?thesis using "1.prems" sel_hd[OF "1.prems"(1)] by auto
    next
      case (Suc j)
      from stop "1.prems"(2) Suc obtain cs where
        c: "children s node = Some cs" and
        p: "p = [node, last (filter (\<lambda>item. children s item = None) cs)]" and
        ne: "filter (\<lambda>item. children s item = None) cs \<noteq> []"
        by (auto simp: select_stop_def split: option.splits if_splits)
      have "last (filter (\<lambda>item. children s item = None) cs)
              \<in> set (filter (\<lambda>item. children s item = None) cs)"
        using ne by (rule last_in_set)
      then have "children s (last (filter (\<lambda>item. children s item = None) cs)) = None" by simp
      then have "select_stop ops s (p ! 1) = Some [p ! 1]" using p by (simp add: select_stop_def)
      from sel_stop[OF this] show ?thesis using p Suc "1.prems"(2) by simp
    qed
  next
    case (step n p')
    show ?thesis
    proof (cases i)
      case 0
      then show ?thesis using "1.prems" sel_hd[OF "1.prems"(1)] by auto
    next
      case (Suc j)
      have "sel ops s (p' ! j) = Some (Inr (drop j p'))"
        using "1.IH" step Suc "1.prems"(2) by auto
      then show ?thesis using step Suc by simp
    qed
  qed
qed

lemma sel_distinct: "sel ops s node = Some (Inr p) \<Longrightarrow> distinct p"
proof -
  assume a: "sel ops s node = Some (Inr p)"
  have "p ! i \<noteq> p ! j" if "i < j" "j < length p" for i j
  proof
    assume eq: "p ! i = p ! j"
    have "sel ops s (p ! i) = Some (Inr (drop i p))" using sel_suffix[OF a] that by simp
    moreover have "sel ops s (p ! j) = Some (Inr (drop j p))" using sel_suffix[OF a] that by simp
    ultimately have "drop i p = drop j p" using eq by simp
    then have "length (drop i p) = length (drop j p)" by simp
    then show False using that by simp
  qed
  then show ?thesis by (metis distinct_conv_nth nat_neq_iff)
qed

lemma sel_chain:
  assumes "sel ops s node = Some (Inr p)" and "Suc i < length p"
  shows "\<exists>cs. children s (p ! i) = Some cs \<and> p ! Suc i \<in> set cs"
proof -
  have a: "sel ops s (p ! i) = Some (Inr (drop i p))" using sel_suffix[OF assms(1)] assms(2) by simp
  have d: "drop i p = p ! i # p ! Suc i # drop (Suc (Suc i)) p"
    using assms(2) by (simp add: Cons_nth_drop_Suc)
  from a show ?thesis
  proof (cases rule: sel_cases)
    case (stop q)
    from stop d obtain cs where
      c: "children s (p ! i) = Some cs" and
      p: "p ! Suc i = last (filter (\<lambda>item. children s item = None) cs)" and
      ne: "filter (\<lambda>item. children s item = None) cs \<noteq> []"
      by (auto simp: select_stop_def split: option.splits if_splits)
    have "last (filter (\<lambda>item. children s item = None) cs)
              \<in> set (filter (\<lambda>item. children s item = None) cs)"
      using ne by (rule last_in_set)
    then show ?thesis using c p by simp
  next
    case (step n p')
    from sel_hd[OF step(3)] step(4) d have "n = p ! Suc i" by auto
    with uct_select_val_in[OF step(2)] show ?thesis by simp
  qed
qed

subsection \<open>The tables after backpropagation and expansion\<close>

lemma backpropagate_Cons:
  "backpropagate ops s (x # xs) reward = backpropagate_step ops reward (backpropagate ops s xs reward) x"
  by (simp add: backpropagate_def)

lemma backpropagate_Nil: "backpropagate ops s [] reward = s"
  by (simp add: backpropagate_def)

lemma backpropagate_step_fields:
  "children (backpropagate_step ops reward s x) = children s"
  "agents (backpropagate_step ops reward s x) = agents s"
  "exploration_weight (backpropagate_step ops reward s x) = exploration_weight s"
  "N (backpropagate_step ops reward s x) = (N s)(x \<mapsto> N_of s x + 1)"
  "Q (backpropagate_step ops reward s x) = (Q s)(x \<mapsto> Q_of s x + signed ops x reward)"
  by (simp_all add: backpropagate_step_def Let_def dd_get_def N_of_def Q_of_def signed_def
        split: option.splits)

lemma backpropagate_fields:
  "children (backpropagate ops s p reward) = children s"
  "agents (backpropagate ops s p reward) = agents s"
  "exploration_weight (backpropagate ops s p reward) = exploration_weight s"
  by (induction p) (simp_all add: backpropagate_Nil backpropagate_Cons backpropagate_step_fields)

lemma backpropagate_outside:
  "n \<notin> set p \<Longrightarrow> N (backpropagate ops s p reward) n = N s n \<and> Q (backpropagate ops s p reward) n = Q s n"
  by (induction p) (auto simp: backpropagate_Nil backpropagate_Cons backpropagate_step_fields)

lemma backpropagate_inside:
  "distinct p \<Longrightarrow> n \<in> set p \<Longrightarrow>
     N (backpropagate ops s p reward) n = Some (N_of s n + 1) \<and>
     Q (backpropagate ops s p reward) n = Some (Q_of s n + signed ops n reward)"
proof (induction p)
  case Nil
  then show ?case by simp
next
  case (Cons x xs)
  show ?case
  proof (cases "n = x")
    case True
    then have "n \<notin> set xs" using Cons.prems by simp
    from backpropagate_outside[OF this, of ops s reward] True show ?thesis
      by (simp add: backpropagate_Cons backpropagate_step_fields N_of_def Q_of_def)
  next
    case False
    then show ?thesis using Cons by (simp add: backpropagate_Cons backpropagate_step_fields)
  qed
qed

lemma backpropagate_N_of:
  "distinct p \<Longrightarrow> N_of (backpropagate ops s p reward) n = N_of s n + (if n \<in> set p then 1 else 0)"
  using backpropagate_inside[of p n ops s reward] backpropagate_outside[of n p ops s reward]
  by (auto simp: N_of_def)

lemma expand_fields:
  "N (expand ops s x) = N s" "Q (expand ops s x) = Q s" "agents (expand ops s x) = agents s"
  "exploration_weight (expand ops s x) = exploration_weight s"
  "children (expand ops s x) = (case children s x of None \<Rightarrow> (children s)(x \<mapsto> find_children ops x) | Some cs \<Rightarrow> children s)"
  by (simp_all add: expand_def split: option.splits)

lemma expand_N_of: "N_of (expand ops s x) = N_of s"
  by (simp add: N_of_def fun_eq_iff expand_fields)

subsection \<open>One rollout and k rollouts\<close>

text \<open>
  A rollout that returns has selected a path, simulated from its leaf and backpropagated; it adds one visit to its root and keeps the invariants of the tables.
\<close>

lemma select_sel:
  assumes "select ops s node = Some (Inr (p, s1))"
  shows "sel ops s node = Some (Inr p)" and "same_view s s1"
proof -
  have 1: "select_loop ops s node [] = Some (Inr (p, s1))" using assms by (simp add: select_def)
  then show "sel ops s node = Some (Inr p)" by (simp add: sel_def res_path_def)
  from select_loop_path[OF 1] show "same_view s s1" by simp
qed

lemma select_path:
  assumes "select ops s node = Some (Inr (p, s1))"
  shows "distinct p" and "\<exists>q. p = node # q"
proof -
  have 1: "sel ops s node = Some (Inr p)" using assms by (rule select_sel)
  then show "distinct p" by (rule sel_distinct)
  from 1 show "\<exists>q. p = node # q" by (rule sel_hd)
qed

lemma do_rollout_Inr:
  assumes "do_rollout ops s node = Some (Inr s')"
  shows "\<exists>p s1 reward.
    select ops s node = Some (Inr (p, s1)) \<and>
    simulate ops (expand ops s1 (last p)) (last p) = Some (Inr reward) \<and>
    s' = backpropagate ops (expand ops s1 (last p)) p reward"
proof (cases "select ops s node")
  case None
  with assms show ?thesis by (simp add: do_rollout_def)
next
  case (Some r)
  show ?thesis
  proof (cases r)
    case (Inl e)
    with assms Some show ?thesis by (simp add: do_rollout_def)
  next
    case (Inr x)
    obtain p s1 where x: "x = (p, s1)" by (cases x)
    show ?thesis
    proof (cases "simulate ops (expand ops s1 (last p)) (last p)")
      case None
      with assms Some Inr x show ?thesis by (simp add: do_rollout_def split: if_splits)
    next
      case (Some y)
      show ?thesis
      proof (cases y)
        case (Inl e)
        with assms \<open>select ops s node = Some r\<close> Inr x Some show ?thesis
          by (simp add: do_rollout_def split: if_splits)
      next
        case (Inr reward)
        with assms \<open>select ops s node = Some r\<close> \<open>r = Inr x\<close> x Some show ?thesis
          by (simp add: do_rollout_def split: if_splits)
      qed
    qed
  qed
qed

lemma do_rollout_N_root:
  assumes "do_rollout ops s rt = Some (Inr s')"
  shows "N_of s' rt = N_of s rt + 1"
proof -
  from do_rollout_Inr[OF assms] obtain p s1 reward where
    sl: "select ops s rt = Some (Inr (p, s1))" and
    s': "s' = backpropagate ops (expand ops s1 (last p)) p reward"
    by blast
  from select_path[OF sl] obtain q where d: "distinct p" and p: "p = rt # q" by blast
  have v: "same_view s s1" using sl by (rule select_sel)
  have "N_of s1 = N_of s" using v by (simp add: same_view_def)
  then show ?thesis using d p by (simp add: s' backpropagate_N_of expand_N_of)
qed

lemma do_rollouts_Suc:
  assumes "do_rollouts (Suc k) ops s rt = Some (Inr s')"
  shows "\<exists>s1. do_rollout ops s rt = Some (Inr s1) \<and> do_rollouts k ops s1 rt = Some (Inr s')"
proof (cases "do_rollout ops s rt")
  case None
  with assms show ?thesis by simp
next
  case (Some r)
  with assms show ?thesis by (cases r) simp_all
qed

lemma do_rollouts_N_root:
  "do_rollouts k ops s rt = Some (Inr s') \<Longrightarrow> N_of s' rt = N_of s rt + int k"
proof (induction k arbitrary: s)
  case 0
  then show ?case by simp
next
  case (Suc k)
  from do_rollouts_Suc[OF Suc.prems] obtain s1 where 1: "do_rollout ops s rt = Some (Inr s1)"
    and 2: "do_rollouts k ops s1 rt = Some (Inr s')" by blast
  from Suc.IH[OF 2] do_rollout_N_root[OF 1] show ?case by simp
qed

lemma N_of_init: "N_of (MCTS_init ags w) n = 0"
  by (simp add: N_of_def MCTS_init_def)

lemma visits_ok_init: "visits_ok (MCTS_init ags w)"
  by (simp add: visits_ok_def N_of_init) (simp add: MCTS_init_def)

lemma do_rollout_visits_ok:
  assumes "do_rollout ops s node = Some (Inr s')" and "visits_ok s"
  shows "visits_ok s'"
proof -
  from do_rollout_Inr[OF assms(1)] obtain p s1 reward where
    sl: "select ops s node = Some (Inr (p, s1))" and
    s': "s' = backpropagate ops (expand ops s1 (last p)) p reward"
    by blast
  from select_path[OF sl] obtain q where d: "distinct p" and p: "p = node # q" by blast
  have v: "same_view s s1" using sl by (rule select_sel)
  have n: "N_of s1 = N_of s" and c: "children s1 = children s" using v by (simp_all add: same_view_def)
  have lp: "last p \<in> set p" using p by simp
  have N': "N_of s' m = N_of s m + (if m \<in> set p then 1 else 0)" for m
    using d by (simp add: s' backpropagate_N_of expand_N_of n)
  have C': "children s' m \<noteq> None \<Longrightarrow> children s m \<noteq> None \<or> m = last p" for m
    by (auto simp: s' backpropagate_fields expand_fields c split: option.splits if_splits)
  have nn: "0 \<le> N_of s m" and kk: "children s m \<noteq> None \<Longrightarrow> 0 < N_of s m" for m
    using assms(2) by (simp_all add: visits_ok_def)
  show ?thesis
    unfolding visits_ok_def
  proof (intro conjI allI impI)
    fix m show "0 \<le> N_of s' m" using nn[of m] by (simp add: N')
  next
    fix m assume "children s' m \<noteq> None"
    from C'[OF this] show "0 < N_of s' m"
    proof
      assume "children s m \<noteq> None"
      from kk[OF this] show ?thesis by (simp add: N')
    next
      assume "m = last p"
      then show ?thesis using lp nn[of m] by (simp add: N')
    qed
  qed
qed

lemma do_rollouts_visits_ok:
  "do_rollouts k ops s rt = Some (Inr s') \<Longrightarrow> visits_ok s \<Longrightarrow> visits_ok s'"
proof (induction k arbitrary: s)
  case 0
  then show ?case by simp
next
  case (Suc k)
  from do_rollouts_Suc[OF Suc.prems(1)] obtain s1 where 1: "do_rollout ops s rt = Some (Inr s1)"
    and 2: "do_rollouts k ops s1 rt = Some (Inr s')" by blast
  from Suc.IH[OF 2 do_rollout_visits_ok[OF 1 Suc.prems(2)]] show ?case .
qed

lemma sel_reach:
  assumes s: "sel ops s node = Some (Inr p)" and cs: "children_sound ops s"
  shows "i < j \<Longrightarrow> j < length p \<Longrightarrow> (is_child ops)\<^sup>+\<^sup>+ (p ! i) (p ! j)"
proof (induction j)
  case 0
  then show ?case by simp
next
  case (Suc j)
  from sel_chain[OF s, of j] Suc.prems obtain xs where
    "children s (p ! j) = Some xs" "p ! Suc j \<in> set xs" by auto
  then have step: "is_child ops (p ! j) (p ! Suc j)"
    using cs by (auto simp: children_sound_def is_child_def)
  show ?case
  proof (cases "i = j")
    case True
    with step show ?thesis by auto
  next
    case False
    then have "(is_child ops)\<^sup>+\<^sup>+ (p ! i) (p ! j)" using Suc by simp
    then show ?thesis using step by (rule tranclp.trancl_into_trancl)
  qed
qed

lemma sum_list_indicator:
  "distinct xs \<Longrightarrow> (\<And>x. x \<in> set xs \<Longrightarrow> x \<in> A \<Longrightarrow> x = a)
     \<Longrightarrow> sum_list (map (\<lambda>x. if x \<in> A then 1 else (0::int)) xs) \<le> 1"
proof (induction xs)
  case Nil
  then show ?case by simp
next
  case (Cons x xs)
  show ?case
  proof (cases "x \<in> A")
    case True
    then have "x = a" using Cons.prems by simp
    have "y \<notin> A" if "y \<in> set xs" for y
    proof
      assume "y \<in> A"
      then have "y = a" using Cons.prems that by simp
      then show False using \<open>x = a\<close> Cons.prems(1) that by simp
    qed
    then have "sum_list (map (\<lambda>x. if x \<in> A then 1 else (0::int)) xs) = 0"
      by (induction xs) auto
    then show ?thesis using True by simp
  next
    case False
    then show ?thesis using Cons by simp
  qed
qed

lemma do_rollout_children_sound:
  assumes "do_rollout ops s node = Some (Inr s')" and "children_sound ops s"
  shows "children_sound ops s'"
proof -
  from do_rollout_Inr[OF assms(1)] obtain p s1 reward where
    sl: "select ops s node = Some (Inr (p, s1))" and
    s': "s' = backpropagate ops (expand ops s1 (last p)) p reward"
    by blast
  have v: "same_view s s1" using sl by (rule select_sel)
  have c: "children s1 = children s" using v by (simp_all add: same_view_def)
  show ?thesis using assms(2)
    by (auto simp: children_sound_def s' backpropagate_fields expand_fields c
             split: option.splits if_splits)
qed

lemma do_rollout_sum:
  assumes r: "do_rollout ops s rt = Some (Inr s')" and cs: "children_sound ops s"
    and t: "tree_at ops rt"
    and le: "sum_list (map (N_of s) (find_children ops rt)) \<le> N_of s rt"
  shows "sum_list (map (N_of s') (find_children ops rt)) \<le> N_of s' rt"
proof -
  from do_rollout_Inr[OF r] obtain p s1 reward where
    sl: "select ops s rt = Some (Inr (p, s1))" and
    s': "s' = backpropagate ops (expand ops s1 (last p)) p reward"
    by blast
  from select_path[OF sl] obtain q where d: "distinct p" and p: "p = rt # q" by blast
  have v: "same_view s s1" using sl by (rule select_sel)
  have se: "sel ops s rt = Some (Inr p)" using sl by (rule select_sel)
  have n: "N_of s1 = N_of s" using v by (simp_all add: same_view_def)
  have N': "N_of s' m = N_of s m + (if m \<in> set p then 1 else 0)" for m
    using d by (simp add: s' backpropagate_N_of expand_N_of n)
  have dc: "distinct (find_children ops rt)"
    and nr: "\<And>b c. b \<in> set (find_children ops rt) \<Longrightarrow> c \<in> set (find_children ops rt)
               \<Longrightarrow> \<not> (is_child ops)\<^sup>+\<^sup>+ b c"
    using t by (auto simp: tree_at_def list_all_iff)
  have only: "x = p ! 1" if x: "x \<in> set (find_children ops rt)" and xp: "x \<in> set p" for x
  proof -
    from xp obtain j where j: "j < length p" "x = p ! j" by (auto simp: in_set_conv_nth)
    have "j \<noteq> 0"
    proof
      assume "j = 0"
      then have "x = rt" using j p by simp
      then have "is_child ops x x" using x by (simp add: is_child_def)
      then have "(is_child ops)\<^sup>+\<^sup>+ x x" by auto
      then show False using nr[OF x x] by simp
    qed
    have 1: "1 < length p" using j \<open>j \<noteq> 0\<close> by simp
    from sel_chain[OF se, of 0] 1 obtain xs where
      "children s (p ! 0) = Some xs" "p ! Suc 0 \<in> set xs" by auto
    then have c1: "p ! 1 \<in> set (find_children ops rt)"
      using cs p by (auto simp: children_sound_def)
    show ?thesis
    proof (rule ccontr)
      assume "x \<noteq> p ! 1"
      then have "j \<noteq> 1" using j by auto
      then have "1 < j" using \<open>j \<noteq> 0\<close> by simp
      from sel_reach[OF se cs this j(1)] have "(is_child ops)\<^sup>+\<^sup>+ (p ! 1) x" using j by simp
      then show False using nr[OF c1 x] by simp
    qed
  qed
  have "sum_list (map (N_of s') xs)
        = sum_list (map (N_of s) xs) + sum_list (map (\<lambda>x. if x \<in> set p then 1 else 0) xs)" for xs
    by (induction xs) (simp_all add: N')
  then have "sum_list (map (N_of s') (find_children ops rt))
        = sum_list (map (N_of s) (find_children ops rt))
          + sum_list (map (\<lambda>x. if x \<in> set p then 1 else 0) (find_children ops rt))" .
  also have "\<dots> \<le> N_of s rt + 1"
    using le sum_list_indicator[OF dc, of "set p" "p ! 1"] only by fastforce
  also have "\<dots> = N_of s' rt" using p by (simp add: N')
  finally show ?thesis .
qed

subsection \<open>The child choose returns\<close>

lemma avg_reward_cong: "same_view s t \<Longrightarrow> avg_reward ops s = avg_reward ops t"
  by (simp add: avg_reward_def same_view_def fun_eq_iff)

lemma score_as_val: "map_sum id fst (score ops s n) = avg_reward ops s n"
proof -
  obtain nv s1 where n: "getN s n = (nv, s1)" by (cases "getN s n")
  obtain qv s2 where q: "getQ s1 n = (qv, s2)" by (cases "getQ s1 n")
  have v1: "same_view s s1" and nv: "nv = N_of s n" using getN_view[of s n] n by auto
  have qv: "qv = Q_of s1 n" using getQ_view[of s1 n] q by auto
  have "Q_of s1 = Q_of s" using v1 by (simp add: same_view_def)
  then show ?thesis
    by (simp add: score_def n q nv qv avg_reward_def split: sum.splits)
qed

lemma score_view: "score ops s n = Inr (v, s') \<Longrightarrow> same_view s s'"
proof -
  obtain nv s1 where n: "getN s n = (nv, s1)" by (cases "getN s n")
  obtain qv s2 where q: "getQ s1 n = (qv, s2)" by (cases "getQ s1 n")
  have v1: "same_view s s1" using getN_view[of s n] n by auto
  have v2: "same_view s1 s2" using getQ_view[of s1 n] q by auto
  assume "score ops s n = Inr (v, s')"
  then have "s' = s1 \<or> s' = s2" by (auto simp: score_def n q split: if_splits sum.splits)
  then show ?thesis using v1 same_view_trans[OF v1 v2] by auto
qed

lemma keys_of_score:
  "map_sum id fst (keys_of (score ops) s cs) = keys_val (avg_reward ops s) cs \<and>
   (\<forall>ks s'. keys_of (score ops) s cs = Inr (ks, s') \<longrightarrow> same_view s s')"
proof (induction cs arbitrary: s)
  case Nil
  show ?case by simp
next
  case (Cons c cs)
  show ?case
  proof (cases "score ops s c")
    case (Inl e)
    then have "avg_reward ops s c = Inl e" using score_as_val[of ops s c] by simp
    then show ?thesis using Inl by simp
  next
    case (Inr r)
    obtain v s1 where r: "r = (v, s1)" by (cases r)
    have "score ops s c = Inr (v, s1)" using Inr r by simp
    then have v1: "same_view s s1" by (rule score_view)
    have uv: "avg_reward ops s c = Inr v" using score_as_val[of ops s c] Inr r by simp
    have eq: "avg_reward ops s1 = avg_reward ops s" using avg_reward_cong[OF v1] by simp
    show ?thesis using Cons.IH[of s1] v1 Inr r uv eq
      by (auto split: sum.splits intro: same_view_trans)
  qed
qed

lemma keys_val_map:
  "(\<And>x. x \<in> set xs \<Longrightarrow> g x = Inr (f x)) \<Longrightarrow> keys_val g xs = Inr (map (\<lambda>x. (f x, x)) xs)"
  by (induction xs) auto

lemma keys_val_fail:
  "g m = Inl e \<Longrightarrow> (\<And>x. x \<in> set pre \<Longrightarrow> \<exists>v. g x = Inr v) \<Longrightarrow> keys_val g (pre @ m # post) = Inl e"
proof (induction pre)
  case Nil
  then show ?case by simp
next
  case (Cons a pre)
  from Cons.prems(2)[of a] obtain v where "g a = Inr v" by auto
  moreover have "keys_val g (pre @ m # post) = Inl e"
    using Cons.IH[OF Cons.prems(1)] Cons.prems(2) by simp
  ultimately show ?case by simp
qed

lemma py_max_map:
  assumes "py_max (map (\<lambda>c. (f c, c)) cs) = Inr n"
  shows "\<exists>pre post. cs = pre @ n # post \<and> (\<forall>m\<in>set pre. f m \<noteq> f n \<and> \<not> f n < f m) \<and>
           (\<forall>m\<in>set post. \<not> f n < f m)"
proof -
  from py_max_Inr[OF assms] obtain k kpre kpost where
    ks: "map (\<lambda>c. (f c, c)) cs = kpre @ (k, n) # kpost" and
    lt: "\<forall>(k', x') \<in> set kpre. k' \<noteq> k \<and> \<not> k < k'" and
    le: "\<forall>(k', x') \<in> set kpost. \<not> k < k'" by blast
  from ks obtain pre x post where cs: "cs = pre @ x # post"
    and a: "map (\<lambda>c. (f c, c)) pre = kpre" and b: "(f x, x) = (k, n)"
    and c: "map (\<lambda>c. (f c, c)) post = kpost"
    by (auto simp: map_eq_append_conv map_eq_Cons_conv)
  have "\<forall>m\<in>set pre. f m \<noteq> f n \<and> \<not> f n < f m" using lt a b by auto
  moreover have "\<forall>m\<in>set post. \<not> f n < f m" using le c b by auto
  ultimately show ?thesis using cs b by blast
qed

lemma choose_terminal: "is_terminal ops node \<Longrightarrow> MCTS_choose ops s node = Inl RuntimeError"
  by (simp add: MCTS_choose_def)

lemma choose_unexpanded:
  "\<not> is_terminal ops node \<Longrightarrow> children s node = None
     \<Longrightarrow> MCTS_choose ops s node = Inr (find_random_child ops node, s)"
  by (simp add: MCTS_choose_def)

lemma choose_empty:
  "\<not> is_terminal ops node \<Longrightarrow> children s node = Some [] \<Longrightarrow> MCTS_choose ops s node = Inl ValueError"
  by (simp add: MCTS_choose_def)

lemma choose_expanded:
  assumes "\<not> is_terminal ops node" and "children s node = Some cs" and "cs \<noteq> []"
    and keys: "\<And>m. m \<in> set cs \<Longrightarrow> avg_reward ops s m = Inr (key m)"
  shows "\<exists>n s' pre post. MCTS_choose ops s node = Inr (n, s') \<and> same_view s s' \<and>
           cs = pre @ n # post \<and>
           (\<forall>m\<in>set pre. key m \<noteq> key n \<and> \<not> key n < key m) \<and>
           (\<forall>m\<in>set post. \<not> key n < key m)"
proof -
  have kv: "keys_val (avg_reward ops s) cs = Inr (map (\<lambda>c. (key c, c)) cs)"
    using keys by (rule keys_val_map)
  then obtain s' where
    k: "keys_of (score ops) s cs = Inr (map (\<lambda>c. (key c, c)) cs, s')"
    using keys_of_score[of ops s cs] by (cases "keys_of (score ops) s cs") auto
  have v: "same_view s s'" using k keys_of_score[of ops s cs] by simp
  have "map (\<lambda>c. (key c, c)) cs \<noteq> []" using assms(3) by simp
  from py_max_nonempty[OF this] obtain n where m: "py_max (map (\<lambda>c. (key c, c)) cs) = Inr n"
    by blast
  have "MCTS_choose ops s node = Inr (n, s')" using assms(1,2) k m by (simp add: MCTS_choose_def)
  with py_max_map[OF m] v show ?thesis by blast
qed

lemma choose_raises:
  assumes "\<not> is_terminal ops node" and "children s node = Some (pre @ m # post)"
    and "avg_reward ops s m = Inl e" and "\<And>x. x \<in> set pre \<Longrightarrow> \<exists>v. avg_reward ops s x = Inr v"
  shows "MCTS_choose ops s node = Inl e"
proof -
  have "keys_val (avg_reward ops s) (pre @ m # post) = Inl e"
    using assms(3,4) by (rule keys_val_fail)
  then have "keys_of (score ops) s (pre @ m # post) = Inl e"
    using keys_of_score[of ops s "pre @ m # post"]
    by (cases "keys_of (score ops) s (pre @ m # post)") auto
  then show ?thesis using assms(1,2) by (simp add: MCTS_choose_def)
qed

lemma avg_reward_unvisited:
  "avg_reward ops s n = Inr v \<Longrightarrow> (v = None \<longleftrightarrow> N_of s n = 0)"
  by (auto simp: avg_reward_def split: if_splits sum.splits)

subsection \<open>The descent by uct\<close>

lemma uct_score_val:
  assumes "uct_score ops s p n = Inr v"
  shows "0 < N_of s p \<and> (\<exists>l. float_log ops (N_of s p) = Inr l \<and> uct_val ops l s n = Inr v)"
  using assms by (auto simp: uct_score_def split: if_splits sum.splits)

lemma uct_select_descend:
  assumes c: "children s node = Some cs" and ne: "cs \<noteq> []"
    and keys: "list_all (\<lambda>c. children s c \<noteq> None) cs"
    and sc: "\<And>m. m \<in> set cs \<Longrightarrow> uct_score ops s node m = Inr (key m)"
  shows "\<exists>n s1 pre post. uct_select ops s node = Inr (n, s1) \<and> same_view s s1 \<and>
           cs = pre @ n # post \<and>
           (\<forall>m\<in>set pre. key m \<noteq> key n \<and> \<not> key n < key m) \<and>
           (\<forall>m\<in>set post. \<not> key n < key m)"
proof -
  have "hd cs \<in> set cs" using ne by simp
  from uct_score_val[OF sc[OF this]] obtain l where
    np: "0 < N_of s node" and l: "float_log ops (N_of s node) = Inr l" by blast
  have "uct_val ops l s m = Inr (key m)" if "m \<in> set cs" for m
    using uct_score_val[OF sc[OF that]] l by auto
  then have k: "keys_val (uct_val ops l s) cs = Inr (map (\<lambda>c. (key c, c)) cs)"
    by (rule keys_val_map)
  have "map (\<lambda>c. (key c, c)) cs \<noteq> []" using ne by simp
  from py_max_nonempty[OF this] obtain n where
    m: "py_max (map (\<lambda>c. (key c, c)) cs) = Inr n" by blast
  have "uct_select_val ops s node = Inr n"
    using c keys np l k m by (simp add: uct_select_val_def children_of_def)
  then obtain s1 where u: "uct_select ops s node = Inr (n, s1)"
    using uct_select_as_val[of ops s node] by (cases "uct_select ops s node") auto
  have "same_view s s1" using u by (rule uct_select_view)
  with u py_max_map[OF m] show ?thesis by blast
qed

lemma uct_select_raises:
  assumes c: "children s node = Some (pre @ m # post)"
    and keys: "list_all (\<lambda>c. children s c \<noteq> None) (pre @ m # post)"
    and f: "uct_score ops s node m = Inl e"
    and p: "\<And>x. x \<in> set pre \<Longrightarrow> \<exists>v. uct_score ops s node x = Inr v"
  shows "uct_select ops s node = Inl e"
proof -
  have "uct_select_val ops s node = Inl e"
  proof (cases "N_of s node \<le> 0")
    case True
    then have "e = ValueError" using f by (simp add: uct_score_def)
    then show ?thesis using True c keys by (simp add: uct_select_val_def children_of_def)
  next
    case False
    show ?thesis
    proof (cases "float_log ops (N_of s node)")
      case (Inl x)
      then have "e = raise_float x" using f False by (simp add: uct_score_def)
      then show ?thesis using False Inl c keys by (simp add: uct_select_val_def children_of_def)
    next
      case (Inr l)
      have 1: "uct_val ops l s m = Inl e" using f False Inr by (simp add: uct_score_def)
      have 2: "\<exists>v. uct_val ops l s x = Inr v" if "x \<in> set pre" for x
        using p[OF that] False Inr by (simp add: uct_score_def)
      have "keys_val (uct_val ops l s) (pre @ m # post) = Inl e" using 1 2 by (rule keys_val_fail)
      then show ?thesis using False Inr c keys by (simp add: uct_select_val_def children_of_def)
    qed
  qed
  then show ?thesis
    using uct_select_as_val[of ops s node] by (cases "uct_select ops s node") auto
qed

lemma filter_empty_list_all: "filter (\<lambda>x. children s x = None) cs = [] \<longleftrightarrow> list_all (\<lambda>c. children s c \<noteq> None) cs"
  by (simp add: filter_empty_conv list_all_iff)

lemma select_stop_None_iff:
  "select_stop ops s node = None \<longleftrightarrow>
     (\<exists>cs. children s node = Some cs \<and> cs \<noteq> [] \<and> \<not> is_terminal ops node \<and>
           list_all (\<lambda>c. children s c \<noteq> None) cs)"
  by (auto simp: select_stop_def filter_empty_list_all split: option.splits)

subsection \<open>Where AssertionError can come from\<close>

lemma raise_float_not_assert: "raise_float e \<noteq> AssertionError"
  by (cases e) simp_all

lemma uct_val_not_assert: "uct_val ops l s n \<noteq> Inl AssertionError"
  by (simp add: uct_val_def raise_float_not_assert split: sum.splits)

lemma uct_select_val_assert:
  "uct_select_val ops s node = Inl AssertionError \<longleftrightarrow>
     (\<exists>cs. children s node = Some cs \<and> \<not> list_all (\<lambda>c. children s c \<noteq> None) cs)"
proof -
  have "keys_val (uct_val ops l s) cs \<noteq> Inl AssertionError" for l cs
    by (rule keys_val_not_assert) (rule uct_val_not_assert)
  moreover have "py_max ks \<noteq> Inl AssertionError" for ks :: "('k::order \<times> 'x) list"
    using py_max_Inl[of ks AssertionError] by auto
  ultimately show ?thesis
    by (auto simp: uct_select_val_def children_of_def raise_float_not_assert
             split: option.splits sum.splits)
qed

lemma uct_select_assert:
  "uct_select ops s node = Inl AssertionError \<longleftrightarrow>
     (\<exists>cs. children s node = Some cs \<and> \<not> list_all (\<lambda>c. children s c \<noteq> None) cs)"
  using uct_select_as_val[of ops s node] uct_select_val_assert[of ops s node]
  by (cases "uct_select ops s node") auto
lemma select_loop_no_assert:
  assumes "select_loop ops s node path = Some r"
  shows "r \<noteq> Inl AssertionError"
  using assms
proof (induction rule: select_loop_induct)
  case (stop s node path q)
  then show ?case by simp
next
  case (err s node path e)
  from err(1) have "\<not> (\<exists>cs. children s node = Some cs \<and> \<not> list_all (\<lambda>c. children s c \<noteq> None) cs)"
    by (auto simp: select_stop_None_iff)
  then show ?case using uct_select_assert[of ops s node] err(2) by auto
next
  case (step s node path n s1 r)
  then show ?case by simp
qed

lemma simulate_loop_errors:
  assumes "simulate_loop ops ags game = Some r"
  shows "r \<noteq> Inl AssertionError"
proof (rule simulate_loop.raw_induct[where P = "\<lambda>ops ags game r. r \<noteq> Inl AssertionError", OF _ assms],
       goal_cases)
  case (1 f ops ags game r)
  then show ?case by (auto split: option.splits if_splits sum.splits)
qed

lemma do_rollout_no_assert: "do_rollout ops s node \<noteq> Some (Inl AssertionError)"
proof
  assume a: "do_rollout ops s node = Some (Inl AssertionError)"
  show False
  proof (cases "select ops s node")
    case None
    with a show ?thesis by (simp add: do_rollout_def)
  next
    case (Some r)
    then have na: "r \<noteq> Inl AssertionError" using select_loop_no_assert by (simp add: select_def)
    show ?thesis
    proof (cases r)
      case (Inl e)
      with a Some na show ?thesis by (simp add: do_rollout_def)
    next
      case (Inr x)
      obtain p s1 where x: "x = (p, s1)" by (cases x)
      show ?thesis
      proof (cases "simulate_loop ops (agents (expand ops s1 (last p))) (clone ops (state ops (last p)))")
        case None
        with a Some Inr x show ?thesis by (simp add: do_rollout_def simulate_def split: if_splits)
      next
        case (Some y)
        from simulate_loop_errors[OF Some] a \<open>select ops s node = Some r\<close> Inr x Some
        show ?thesis by (cases y) (simp_all add: do_rollout_def simulate_def split: if_splits)
      qed
    qed
  qed
qed

subsection \<open>Simulation and playouts\<close>

lemma simulate_loop_unfold:
  "simulate_loop ops ags game =
     (case winner ops game of
        Some w \<Rightarrow> Some (Inr game)
      | None \<Rightarrow> (case agent_step ops ags game of
                   Inl e \<Rightarrow> Some (Inl e)
                 | Inr game' \<Rightarrow> simulate_loop ops ags game'))"
  by (subst simulate_loop.simps) (simp add: agent_step_def split: option.splits sum.splits)

lemma plays_to_0: "plays_to 0 ops ags game final \<longleftrightarrow> final = game \<and> winner ops game \<noteq> None"
  by (auto simp: plays_to_def)

lemma plays_to_Suc:
  "plays_to (Suc k) ops ags game final \<longleftrightarrow>
     winner ops game = None \<and> (\<exists>g1. agent_step ops ags game = Inr g1 \<and> plays_to k ops ags g1 final)"
proof
  assume a: "plays_to (Suc k) ops ags game final"
  then have w: "winner ops game = None" by (force simp: plays_to_def)
  from a obtain g1 where g1: "agent_step ops ags game = Inr g1" and p: "play_steps k ops ags g1 = Inr final"
    by (auto simp: plays_to_def split: sum.splits)
  have "\<exists>g. play_steps j ops ags g1 = Inr g \<and> winner ops g = None" if "j < k" for j
  proof -
    from a that have "\<exists>g. play_steps (Suc j) ops ags game = Inr g \<and> winner ops g = None"
      unfolding plays_to_def by (meson Suc_mono)
    then show ?thesis using g1 by simp
  qed
  with a p g1 w show "winner ops game = None \<and> (\<exists>g1. agent_step ops ags game = Inr g1 \<and> plays_to k ops ags g1 final)"
    by (auto simp: plays_to_def)
next
  assume b: "winner ops game = None \<and> (\<exists>g1. agent_step ops ags game = Inr g1 \<and> plays_to k ops ags g1 final)"
  then obtain g1 where w: "winner ops game = None" and g1: "agent_step ops ags game = Inr g1"
    and p: "plays_to k ops ags g1 final" by blast
  have "\<exists>g. play_steps j ops ags game = Inr g \<and> winner ops g = None" if "j < Suc k" for j
  proof (cases j)
    case 0
    then show ?thesis using w by simp
  next
    case (Suc i)
    then have "i < k" using that by simp
    then show ?thesis using p g1 Suc by (auto simp: plays_to_def)
  qed
  then show "plays_to (Suc k) ops ags game final" using p g1 by (auto simp: plays_to_def)
qed

lemma plays_to_simulate_loop:
  "plays_to k ops ags game final \<Longrightarrow> simulate_loop ops ags game = Some (Inr final)"
proof (induction k arbitrary: game)
  case 0
  then show ?case by (subst simulate_loop_unfold) (auto simp: plays_to_0)
next
  case (Suc k)
  from Suc.prems obtain g1 where w: "winner ops game = None" and g1: "agent_step ops ags game = Inr g1"
    and p: "plays_to k ops ags g1 final" by (auto simp: plays_to_Suc)
  from Suc.IH[OF p] show ?case using w g1 by (subst simulate_loop_unfold) simp
qed

lemma simulate_loop_plays_to:
  assumes "simulate_loop ops ags game = Some r"
  shows "\<forall>final. r = Inr final \<longrightarrow> (\<exists>k. plays_to k ops ags game final)"
proof (rule simulate_loop.raw_induct[where
         P = "\<lambda>ops ags game r. \<forall>final. r = Inr final \<longrightarrow> (\<exists>k. plays_to k ops ags game final)",
         OF _ assms], goal_cases)
  case (1 f ops ags game r)
  show ?case
  proof (cases "winner ops game")
    case (Some w)
    with 1(2) have "r = Inr game" by simp
    then show ?thesis using Some plays_to_0[of ops ags game game] by auto
  next
    case None
    show ?thesis
    proof (intro allI impI)
      fix final assume r: "r = Inr final"
      from 1(2) None r obtain g1 where g1: "agent_step ops ags game = Inr g1"
        and f: "f ops ags g1 = Some (Inr final)"
        by (auto simp: agent_step_def split: if_splits sum.splits)
      from 1(1)[OF f] obtain k where "plays_to k ops ags g1 final" by blast
      then have "plays_to (Suc k) ops ags game final" using None g1 by (auto simp: plays_to_Suc)
      then show "\<exists>k. plays_to k ops ags game final" ..
    qed
  qed
qed

lemma simulate_iff:
  "simulate ops s leaf = Some (Inr r) \<longleftrightarrow>
     (\<exists>k final. plays_to k ops (agents s) (clone ops (state ops leaf)) final \<and>
        r = (if winner ops final = Some FIRST then 1 else - 1))"
proof
  assume a: "simulate ops s leaf = Some (Inr r)"
  then obtain final where l: "simulate_loop ops (agents s) (clone ops (state ops leaf)) = Some (Inr final)"
    and r: "r = (if winner ops final = Some FIRST then 1 else - 1)"
    by (auto simp: simulate_def split: option.splits sum.splits)
  from simulate_loop_plays_to[OF l] r
  show "\<exists>k final. plays_to k ops (agents s) (clone ops (state ops leaf)) final \<and>
        r = (if winner ops final = Some FIRST then 1 else - 1)" by blast
next
  assume "\<exists>k final. plays_to k ops (agents s) (clone ops (state ops leaf)) final \<and>
        r = (if winner ops final = Some FIRST then 1 else - 1)"
  then obtain k final where p: "plays_to k ops (agents s) (clone ops (state ops leaf)) final"
    and r: "r = (if winner ops final = Some FIRST then 1 else - 1)" by blast
  from plays_to_simulate_loop[OF p] r show "simulate ops s leaf = Some (Inr r)"
    by (simp add: simulate_def)
qed

subsection \<open>Rollouts that return\<close>

text \<open>
  Where no infinite chain of nodes, each a \<^verbatim>\<open>find_children\<close> child of the one before,
  exists, the descent ends: in an instance whose keys have all been visited, whose
  children lists are the nodes' \<^verbatim>\<open>find_children()\<close> and on whose numbers the float
  operations of \<open>uct\<close> return, selection returns a path. If moreover every simulation
  returns a reward, so does every rollout and every sequence of rollouts.
\<close>

lemma visits_ok_cong: "same_view s t \<Longrightarrow> visits_ok s \<Longrightarrow> visits_ok t"
  by (simp add: visits_ok_def same_view_def)

lemma children_sound_cong: "same_view s t \<Longrightarrow> children_sound ops s \<Longrightarrow> children_sound ops t"
  by (simp add: children_sound_def same_view_def)

lemma stats_bounded_cong: "same_view s t \<Longrightarrow> stats_bounded s j \<Longrightarrow> stats_bounded t j"
  by (simp add: stats_bounded_def same_view_def)

lemma stats_bounded_init: "stats_bounded (MCTS_init ags w) 0"
  by (simp add: stats_bounded_def N_of_def Q_of_def MCTS_init_def)

lemma uct_computes_mono: "uct_computes ops j \<Longrightarrow> i \<le> j \<Longrightarrow> uct_computes ops i"
  unfolding uct_computes_def by (meson order_trans)

lemma simulate_reward: "simulate ops s n = Some (Inr r) \<Longrightarrow> r = 1 \<or> r = - 1"
  by (auto simp: simulate_def split: option.splits sum.splits if_splits)

lemma expand_Q_of: "Q_of (expand ops s x) = Q_of s"
  by (simp add: Q_of_def fun_eq_iff expand_fields)

lemma backpropagate_Q_of:
  "distinct p \<Longrightarrow>
     Q_of (backpropagate ops s p reward) n = Q_of s n + (if n \<in> set p then signed ops n reward else 0)"
  using backpropagate_inside[of p n ops s reward] backpropagate_outside[of n p ops s reward]
  by (auto simp: Q_of_def)

lemma do_rollout_stats_bounded:
  assumes "do_rollout ops s node = Some (Inr s')" and b: "stats_bounded s j"
  shows "stats_bounded s' (j + 1)"
proof -
  from do_rollout_Inr[OF assms(1)] obtain p s1 reward where
    sl: "select ops s node = Some (Inr (p, s1))" and
    sim: "simulate ops (expand ops s1 (last p)) (last p) = Some (Inr reward)" and
    s': "s' = backpropagate ops (expand ops s1 (last p)) p reward"
    by blast
  from select_path[OF sl] have d: "distinct p" by blast
  have v: "same_view s s1" using sl by (rule select_sel)
  have n: "N_of s1 = N_of s" and q: "Q_of s1 = Q_of s" using v by (simp_all add: same_view_def)
  have N': "N_of s' m = N_of s m + (if m \<in> set p then 1 else 0)" for m
    using d by (simp add: s' backpropagate_N_of expand_N_of n)
  have Q': "Q_of s' m = Q_of s m + (if m \<in> set p then signed ops m reward else 0)" for m
    using d by (simp add: s' backpropagate_Q_of expand_Q_of q)
  have r: "signed ops m reward = 1 \<or> signed ops m reward = - 1" for m
    using simulate_reward[OF sim] by (auto simp: signed_def)
  have h: "N_of s m \<le> j" "- N_of s m \<le> Q_of s m" "Q_of s m \<le> N_of s m" for m
    using b by (simp_all add: stats_bounded_def)
  show ?thesis
    unfolding stats_bounded_def
  proof (intro allI conjI)
    fix m show "N_of s' m \<le> j + 1" using h(1)[of m] by (simp add: N')
    show "- N_of s' m \<le> Q_of s' m" using h(2)[of m] r[of m] by (auto simp: N' Q')
    show "Q_of s' m \<le> N_of s' m" using h(3)[of m] r[of m] by (auto simp: N' Q')
  qed
qed

lemma uct_score_returns:
  assumes u: "uct_computes ops j" and b: "stats_bounded s j"
    and np: "0 < N_of s p" and nn: "0 < N_of s n"
  shows "\<exists>v. uct_score ops s p n = Inr v"
proof -
  have "N_of s p \<le> j" "N_of s n \<le> j" "- N_of s n \<le> Q_of s n" "Q_of s n \<le> N_of s n"
    using b by (simp_all add: stats_bounded_def)
  with u np nn obtain a l x r where
    "float_div_int ops (Q_of s n) (N_of s n) = Inr a" "float_log ops (N_of s p) = Inr l"
    "float_div ops l (N_of s n) = Inr x" "float_sqrt ops x = Inr r"
    unfolding uct_computes_def by blast
  then show ?thesis using np nn by (simp add: uct_score_def uct_val_def)
qed

lemma select_loop_returns:
  assumes wf: "wfp (\<lambda>c n. is_child ops n c)" and u: "uct_computes ops j"
  shows "visits_ok s \<Longrightarrow> children_sound ops s \<Longrightarrow> stats_bounded s j
           \<Longrightarrow> \<exists>p s1. select_loop ops s node path = Some (Inr (p, s1))"
  using wf
proof (induction node arbitrary: s path rule: wfp_induct_rule)
  case (less node)
  show ?case
  proof (cases "select_stop ops s node")
    case (Some q)
    then show ?thesis by (simp add: select_loop_unfold)
  next
    case None
    then obtain cs where h: "children s node = Some cs" "cs \<noteq> []" "\<not> is_terminal ops node"
      "list_all (\<lambda>c. children s c \<noteq> None) cs"
      by (auto simp: select_stop_None_iff)
    have np: "0 < N_of s node" using h(1) less.prems(1) by (simp add: visits_ok_def)
    have nc: "0 < N_of s c" if "c \<in> set cs" for c
      using h(4) less.prems(1) that by (simp add: visits_ok_def list_all_iff)
    have "\<exists>v. uct_score ops s node c = Inr v" if "c \<in> set cs" for c
      using uct_score_returns[OF u less.prems(3) np nc[OF that]] .
    then have "\<exists>key. \<forall>c\<in>set cs. uct_score ops s node c = Inr (key c)" by metis
    then obtain key where sc: "\<And>c. c \<in> set cs \<Longrightarrow> uct_score ops s node c = Inr (key c)"
      by blast
    from uct_select_descend[OF h(1,2,4) sc] obtain n s1 pre post where
      u: "uct_select ops s node = Inr (n, s1)" "same_view s s1" "cs = pre @ n # post" by blast
    have "n \<in> set cs" using u(3) by simp
    moreover have "cs = find_children ops node"
      using h(1) less.prems(2) by (simp add: children_sound_def)
    ultimately have c: "is_child ops node n" by (simp add: is_child_def)
    have "\<exists>p s2. select_loop ops s1 n (path @ [node]) = Some (Inr (p, s2))"
      using less.IH[OF c visits_ok_cong[OF u(2) less.prems(1)]
                      children_sound_cong[OF u(2) less.prems(2)]
                      stats_bounded_cong[OF u(2) less.prems(3)]] .
    then show ?thesis using None u(1) by (simp add: select_loop_unfold)
  qed
qed

lemma simulate_agents: "agents s = agents t \<Longrightarrow> simulate ops s n = simulate ops t n"
  by (simp add: simulate_def)

lemma do_rollout_agents:
  assumes "do_rollout ops s node = Some (Inr s')"
  shows "agents s' = agents s"
proof -
  from do_rollout_Inr[OF assms] obtain p s1 reward where
    sl: "select ops s node = Some (Inr (p, s1))" and
    s': "s' = backpropagate ops (expand ops s1 (last p)) p reward"
    by blast
  have "same_view s s1" using sl by (rule select_sel)
  then show ?thesis by (simp add: s' backpropagate_fields expand_fields same_view_def)
qed

lemma do_rollout_returns:
  assumes wf: "wfp (\<lambda>c n. is_child ops n c)" and u: "uct_computes ops j"
    and v: "visits_ok s" and c: "children_sound ops s" and b: "stats_bounded s j"
    and sim: "\<And>n. \<exists>r. simulate ops s n = Some (Inr r)"
  shows "\<exists>s'. do_rollout ops s node = Some (Inr s')"
proof -
  from select_loop_returns[OF wf u v c b, of node "[]"] obtain p s1 where
    sl: "select ops s node = Some (Inr (p, s1))" by (auto simp: select_def)
  from select_path(2)[OF sl] have ne: "p \<noteq> []" by auto
  have "same_view s s1" using sl by (rule select_sel)
  then have "agents (expand ops s1 (last p)) = agents s"
    by (simp add: expand_fields same_view_def)
  from simulate_agents[OF this, of ops "last p"] sim[of "last p"] obtain r where
    "simulate ops (expand ops s1 (last p)) (last p) = Some (Inr r)" by auto
  then show ?thesis using sl ne by (simp add: do_rollout_def)
qed

lemma do_rollouts_returns:
  assumes wf: "wfp (\<lambda>c n. is_child ops n c)"
  shows "uct_computes ops (j + int k) \<Longrightarrow> visits_ok s \<Longrightarrow> children_sound ops s
           \<Longrightarrow> stats_bounded s j \<Longrightarrow> (\<And>n. \<exists>r. simulate ops s n = Some (Inr r))
           \<Longrightarrow> \<exists>s'. do_rollouts k ops s node = Some (Inr s')"
proof (induction k arbitrary: s j)
  case 0
  show ?case by simp
next
  case (Suc k)
  have u: "uct_computes ops j" using Suc.prems(1) by (rule uct_computes_mono) simp
  from do_rollout_returns[OF wf u Suc.prems(2,3,4,5)] obtain s1 where
    1: "do_rollout ops s node = Some (Inr s1)" by blast
  have v: "visits_ok s1" using 1 Suc.prems(2) by (rule do_rollout_visits_ok)
  have c: "children_sound ops s1" using 1 Suc.prems(3) by (rule do_rollout_children_sound)
  have b: "stats_bounded s1 (j + 1)" using 1 Suc.prems(4) by (rule do_rollout_stats_bounded)
  have u1: "uct_computes ops (j + 1 + int k)" using Suc.prems(1) by (simp add: add.commute add.left_commute)
  have "agents s1 = agents s" using 1 by (rule do_rollout_agents)
  then have "\<exists>r. simulate ops s1 n = Some (Inr r)" for n
    using Suc.prems(5)[of n] simulate_agents[of s1 s ops n] by simp
  from Suc.IH[OF u1 v c b this] show ?case using 1 by simp
qed

text \<open>
  Without any hypothesis on the float operations the descent still ends: it returns a
  path or raises.
\<close>

lemma select_loop_terminates:
  assumes wf: "wfp (\<lambda>c n. is_child ops n c)"
  shows "children_sound ops s \<Longrightarrow> \<exists>r. select_loop ops s node path = Some r"
  using wf
proof (induction node arbitrary: s path rule: wfp_induct_rule)
  case (less node)
  show ?case
  proof (cases "select_stop ops s node")
    case (Some q)
    then show ?thesis by (simp add: select_loop_unfold)
  next
    case None
    show ?thesis
    proof (cases "uct_select ops s node")
      case (Inl e)
      then show ?thesis using None by (simp add: select_loop_unfold)
    next
      case (Inr x)
      obtain n s1 where x: "x = (n, s1)" by (cases x)
      have u: "uct_select ops s node = Inr (n, s1)" using Inr x by simp
      have v: "same_view s s1" using u by (rule uct_select_view)
      have "uct_select_val ops s node = Inr n" using uct_select_as_val[of ops s node] u by simp
      from uct_select_val_in[OF this] obtain cs where
        cs: "children s node = Some cs" "n \<in> set cs" by blast
      have "cs = find_children ops node" using cs(1) less.prems by (simp add: children_sound_def)
      then have c: "is_child ops node n" using cs(2) by (simp add: is_child_def)
      have "\<exists>r. select_loop ops s1 n (path @ [node]) = Some r"
        using less.IH[OF c children_sound_cong[OF v less.prems]] .
      then show ?thesis using None u by (simp add: select_loop_unfold)
    qed
  qed
qed

lemma do_rollout_terminates:
  assumes wf: "wfp (\<lambda>c n. is_child ops n c)" and c: "children_sound ops s"
    and sim: "\<And>n. \<exists>r. simulate ops s n = Some (Inr r)"
  shows "\<exists>r. do_rollout ops s node = Some r"
proof -
  from select_loop_terminates[OF wf c, of node "[]"] obtain r where
    sl: "select ops s node = Some r" by (auto simp: select_def)
  show ?thesis
  proof (cases r)
    case (Inl e)
    then show ?thesis using sl by (simp add: do_rollout_def)
  next
    case (Inr x)
    obtain p s1 where x: "x = (p, s1)" by (cases x)
    have sl': "select ops s node = Some (Inr (p, s1))" using sl Inr x by simp
    have "same_view s s1" using sl' by (rule select_sel)
    then have "agents (expand ops s1 (last p)) = agents s"
      by (simp add: expand_fields same_view_def)
    from simulate_agents[OF this, of ops "last p"] sim[of "last p"] obtain rw where
      "simulate ops (expand ops s1 (last p)) (last p) = Some (Inr rw)" by auto
    then show ?thesis using sl' by (simp add: do_rollout_def)
  qed
qed

lemma do_rollouts_terminates:
  assumes wf: "wfp (\<lambda>c n. is_child ops n c)"
  shows "children_sound ops s \<Longrightarrow> (\<And>n. \<exists>r. simulate ops s n = Some (Inr r))
           \<Longrightarrow> \<exists>r. do_rollouts k ops s node = Some r"
proof (induction k arbitrary: s)
  case 0
  show ?case by simp
next
  case (Suc k)
  from do_rollout_terminates[OF wf Suc.prems] obtain r where
    1: "do_rollout ops s node = Some r" by blast
  show ?case
  proof (cases r)
    case (Inl e)
    then show ?thesis using 1 by simp
  next
    case (Inr s1)
    have d: "do_rollout ops s node = Some (Inr s1)" using 1 Inr by simp
    have c: "children_sound ops s1" using d Suc.prems(1) by (rule do_rollout_children_sound)
    have "agents s1 = agents s" using d by (rule do_rollout_agents)
    then have "\<exists>r. simulate ops s1 n = Some (Inr r)" for n
      using Suc.prems(2)[of n] simulate_agents[of s1 s ops n] by simp
    from Suc.IH[OF c this] show ?thesis using d by simp
  qed
qed

subsection \<open>Further facts the claims use\<close>

lemma mro_values:
  "mro Exception = [Exception]"
  "mro GameError = [GameError, Exception]"
  "mro ActionError = [ActionError, Exception]"
  "mro FullHandError = [FullHandError, GameError, Exception]"
  "mro EmptyDeckError = [EmptyDeckError, GameError, Exception]"
  "mro WardShieldError = [WardShieldError, GameError, Exception]"
  "mro NotEnoughManaError = [NotEnoughManaError, ActionError, Exception]"
  "mro FullLaneError = [FullLaneError, ActionError, Exception]"
  "mro MalformedActionError = [MalformedActionError, ActionError, Exception]"
  by simp_all

lemma no_class_in_both: "\<not> (issubclass c GameError \<and> issubclass c ActionError)"
  by (cases c) (simp_all add: issubclass_def)

lemma opposing_values: "opposing FIRST = Inr SECOND" "opposing SECOND = Inr FIRST"
  by (simp_all add: opposing_def PlayerOrder_call_def)

lemma simulate_nonzero: "simulate ops s node \<noteq> Some (Inr 0)"
  by (simp add: simulate_def split: option.splits sum.splits)

lemma do_rollouts_no_assert: "do_rollouts k ops s node \<noteq> Some (Inl AssertionError)"
proof (induction k arbitrary: s)
  case 0
  show ?case by simp
next
  case (Suc k)
  show ?case
  proof (cases "do_rollout ops s node")
    case None
    then show ?thesis by simp
  next
    case (Some r)
    show ?thesis
    proof (cases r)
      case (Inl e)
      then have "e \<noteq> AssertionError" using Some do_rollout_no_assert[of ops s node] by simp
      then show ?thesis using Some Inl by simp
    next
      case (Inr s1)
      then show ?thesis using Some Suc.IH[of s1] by simp
    qed
  qed
qed

lemma select_no_assert: "select ops s node \<noteq> Some (Inl AssertionError)"
proof
  assume "select ops s node = Some (Inl AssertionError)"
  then have "select_loop ops s node [] = Some (Inl AssertionError)" by (simp add: select_def)
  from select_loop_no_assert[OF this] show False by simp
qed

lemma select_loop_reaches_uct:
  assumes "children s node = Some cs" and "cs \<noteq> []" and "\<not> is_terminal ops node"
    and "filter (\<lambda>item. children s item = None) cs = []"
  shows "select_loop ops s node path =
           (case uct_select ops s node of
              Inl e \<Rightarrow> Some (Inl e)
            | Inr (n, s1) \<Rightarrow> select_loop ops s1 n (path @ [node]))"
  using assms by (subst select_loop.simps) simp

lemma children_sound_init: "children_sound ops (MCTS_init ags w)"
  by (simp add: children_sound_def MCTS_init_def)

lemma do_rollouts_sum:
  "do_rollouts k ops s rt = Some (Inr s') \<Longrightarrow> children_sound ops s \<Longrightarrow> tree_at ops rt \<Longrightarrow>
   sum_list (map (N_of s) (find_children ops rt)) \<le> N_of s rt \<Longrightarrow>
   children_sound ops s' \<and> sum_list (map (N_of s') (find_children ops rt)) \<le> N_of s' rt"
proof (induction k arbitrary: s)
  case 0
  then show ?case by simp
next
  case (Suc k)
  from do_rollouts_Suc[OF Suc.prems(1)] obtain s1 where
    1: "do_rollout ops s rt = Some (Inr s1)" and 2: "do_rollouts k ops s1 rt = Some (Inr s')"
    by blast
  have c: "children_sound ops s1" using 1 Suc.prems(2) by (rule do_rollout_children_sound)
  have l: "sum_list (map (N_of s1) (find_children ops rt)) \<le> N_of s1 rt"
    using 1 Suc.prems(2,3,4) by (rule do_rollout_sum)
  from Suc.IH[OF 2 c Suc.prems(3) l] show ?case .
qed

subsection \<open>What a method writes in the store\<close>

text \<open>
  Every method of an instance creates no dictionary and changes at most the three
  dictionaries of the instance, whatever it returns or raises and however far it has
  run.
\<close>

lemma writes_only_refl [simp]: "writes_only self h h"
  by (simp add: writes_only_def)

lemma writes_only_trans: "writes_only self h h1 \<Longrightarrow> writes_only self h1 h2 \<Longrightarrow> writes_only self h h2"
  by (simp add: writes_only_def)

lemma int_get_writes:
  "r = self_Q self \<or> r = self_N self \<Longrightarrow> int_get h r k = (v, h') \<Longrightarrow> writes_only self h h'"
  by (auto simp: int_get_def dd_get_def writes_only_def split: option.splits)

lemma int_set_writes:
  "r = self_Q self \<or> r = self_N self \<Longrightarrow> writes_only self h (int_set h r k v)"
  by (auto simp: int_set_def writes_only_def)

lemma list_get_writes:
  "list_get h (self_children self) k = (v, h') \<Longrightarrow> writes_only self h h'"
  by (auto simp: list_get_def dd_get_def writes_only_def split: option.splits)

lemma list_set_writes: "writes_only self h (list_set h (self_children self) k v)"
  by (auto simp: list_set_def writes_only_def)

lemma keys_on_writes:
  assumes "\<And>h x r h'. f h x = (r, h') \<Longrightarrow> writes_only self h h'"
  shows "keys_on f h xs = (r, h') \<Longrightarrow> writes_only self h h'"
proof (induction xs arbitrary: h r h')
  case Nil
  then show ?case by simp
next
  case (Cons x xs)
  obtain r1 h1 where f: "f h x = (r1, h1)" by (cases "f h x")
  have w1: "writes_only self h h1" using f by (rule assms)
  show ?case
  proof (cases r1)
    case (Inl e)
    then have "h' = h1" using Cons.prems f by simp
    then show ?thesis using w1 by simp
  next
    case (Inr k)
    obtain r2 h2 where k: "keys_on f h1 xs = (r2, h2)" by (cases "keys_on f h1 xs")
    have w2: "writes_only self h1 h2" using k by (rule Cons.IH)
    have "h' = h2" using Cons.prems f Inr k by (cases r2) simp_all
    then show ?thesis using w1 w2 writes_only_trans by blast
  qed
qed

lemma score_on_writes: "score_on ops self h n = (r, h') \<Longrightarrow> writes_only self h h'"
proof -
  assume a: "score_on ops self h n = (r, h')"
  obtain nv h1 where 1: "int_get h (self_N self) n = (nv, h1)" by (cases "int_get h (self_N self) n")
  obtain qv h2 where 2: "int_get h1 (self_Q self) n = (qv, h2)"
    by (cases "int_get h1 (self_Q self) n")
  obtain nv' h3 where 3: "int_get h2 (self_N self) n = (nv', h3)"
    by (cases "int_get h2 (self_N self) n")
  have w1: "writes_only self h h1" using 1 by (rule int_get_writes[rotated]) simp
  have w2: "writes_only self h1 h2" using 2 by (rule int_get_writes[rotated]) simp
  have w3: "writes_only self h2 h3" using 3 by (rule int_get_writes[rotated]) simp
  have "h' = h1 \<or> h' = h3" using a by (auto simp: score_on_def 1 2 3 split: if_splits sum.splits)
  then show ?thesis using w1 writes_only_trans[OF w1 writes_only_trans[OF w2 w3]] by auto
qed

lemma py_max_result_writes:
  "(case py_max ks of Inl e \<Rightarrow> (Inl e, h2) | Inr n \<Rightarrow> (Inr n, h2)) = (r, h') \<Longrightarrow> h' = h2"
  by (cases "py_max ks") auto

lemma choose_on_writes: "choose_on ops self h node = (r, h') \<Longrightarrow> writes_only self h h'"
proof -
  assume a: "choose_on ops self h node = (r, h')"
  obtain cs h1 where 1: "list_get h (self_children self) node = (cs, h1)"
    by (cases "list_get h (self_children self) node")
  obtain r2 h2 where 2: "keys_on (score_on ops self) h1 cs = (r2, h2)"
    by (cases "keys_on (score_on ops self) h1 cs")
  have w1: "writes_only self h h1" using 1 by (rule list_get_writes)
  have w2: "writes_only self h1 h2" using score_on_writes 2 by (rule keys_on_writes)
  have "h' = h \<or> h' = h2"
    using a by (cases r2) (auto simp: choose_on_def 1 2 split: if_splits sum.splits)
  then show ?thesis using writes_only_trans[OF w1 w2] by auto
qed

lemma uct_on_writes: "uct_on ops self l h n = (r, h') \<Longrightarrow> writes_only self h h'"
proof -
  assume a: "uct_on ops self l h n = (r, h')"
  obtain qv h1 where 1: "int_get h (self_Q self) n = (qv, h1)" by (cases "int_get h (self_Q self) n")
  obtain nv h2 where 2: "int_get h1 (self_N self) n = (nv, h2)"
    by (cases "int_get h1 (self_N self) n")
  obtain nv' h3 where 3: "int_get h2 (self_N self) n = (nv', h3)"
    by (cases "int_get h2 (self_N self) n")
  have w1: "writes_only self h h1" using 1 by (rule int_get_writes[rotated]) simp
  have w2: "writes_only self h1 h2" using 2 by (rule int_get_writes[rotated]) simp
  have w3: "writes_only self h2 h3" using 3 by (rule int_get_writes[rotated]) simp
  have "h' = h2 \<or> h' = h3" using a by (auto simp: uct_on_def 1 2 3 split: if_splits sum.splits)
  then show ?thesis
    using writes_only_trans[OF w1 w2] writes_only_trans[OF w1 writes_only_trans[OF w2 w3]] by auto
qed

lemma uct_select_on_writes: "uct_select_on ops self h node = (r, h') \<Longrightarrow> writes_only self h h'"
proof -
  assume a: "uct_select_on ops self h node = (r, h')"
  obtain cs h1 where 1: "list_get h (self_children self) node = (cs, h1)"
    by (cases "list_get h (self_children self) node")
  obtain nv h2 where 2: "int_get h1 (self_N self) node = (nv, h2)"
    by (cases "int_get h1 (self_N self) node")
  obtain cs' h3 where 3: "list_get h2 (self_children self) node = (cs', h3)"
    by (cases "list_get h2 (self_children self) node")
  have w1: "writes_only self h h1" using 1 by (rule list_get_writes)
  have w2: "writes_only self h1 h2" using 2 by (rule int_get_writes[rotated]) simp
  have w3: "writes_only self h2 h3" using 3 by (rule list_get_writes)
  have w12: "writes_only self h h2" using w1 w2 by (rule writes_only_trans)
  have w13: "writes_only self h h3" using w12 w3 by (rule writes_only_trans)
  have w4: "writes_only self h3 h4" if "keys_on (uct_on ops self l) h3 cs' = (r4, h4)" for l r4 h4
    using uct_on_writes that by (rule keys_on_writes)
  show ?thesis
  proof (cases "\<not> list_all (\<lambda>n. list_has h1 (self_children self) n) cs \<or> nv \<le> 0")
    case True
    then have "h' = h1 \<or> h' = h2" using a by (auto simp: uct_select_on_def 1 2 split: if_splits)
    then show ?thesis using w1 w12 by auto
  next
    case False
    show ?thesis
    proof (cases "float_log ops nv")
      case (Inl e)
      then have "h' = h2" using a False by (auto simp: uct_select_on_def 1 2)
      then show ?thesis using w12 by simp
    next
      case (Inr l)
      obtain r4 h4 where 4: "keys_on (uct_on ops self l) h3 cs' = (r4, h4)"
        by (cases "keys_on (uct_on ops self l) h3 cs'")
      have "h' = h4" using a False Inr 4
        by (cases r4) (auto simp: uct_select_on_def 1 2 3 split: sum.splits)
      then show ?thesis using writes_only_trans[OF w13 w4[OF 4]] by simp
    qed
  qed
qed

lemma select_loop_on_writes:
  "select_loop_on fuel ops self h node path = (r, h') \<Longrightarrow> writes_only self h h'"
proof (induction fuel arbitrary: h node path)
  case 0
  then show ?case by simp
next
  case (Suc fuel)
  obtain cs h1 where 1: "list_get h (self_children self) node = (cs, h1)"
    by (cases "list_get h (self_children self) node")
  obtain cs' h2 where 2: "list_get h1 (self_children self) node = (cs', h2)"
    by (cases "list_get h1 (self_children self) node")
  obtain r3 h3 where 3: "uct_select_on ops self h2 node = (r3, h3)"
    by (cases "uct_select_on ops self h2 node")
  have w1: "writes_only self h h1" using 1 by (rule list_get_writes)
  have w2: "writes_only self h1 h2" using 2 by (rule list_get_writes)
  have w3: "writes_only self h2 h3" using 3 by (rule uct_select_on_writes)
  have w12: "writes_only self h h2" using w1 w2 by (rule writes_only_trans)
  have w13: "writes_only self h h3" using w12 w3 by (rule writes_only_trans)
  show ?case
  proof (cases "\<not> list_has h (self_children self) node \<or> cs = [] \<or> is_terminal ops node \<or>
                filter (\<lambda>item. \<not> list_has h2 (self_children self) item) cs' \<noteq> []")
    case True
    then have "h' = h \<or> h' = h1 \<or> h' = h2"
      using Suc.prems by (auto simp: 1 2 split: if_splits)
    then show ?thesis using w1 w12 by auto
  next
    case False
    show ?thesis
    proof (cases r3)
      case (Inl e)
      then have "h' = h3" using Suc.prems False by (auto simp: 1 2 3)
      then show ?thesis using w13 by simp
    next
      case (Inr n)
      then have "select_loop_on fuel ops self h3 n (path @ [node]) = (r, h')"
        using Suc.prems False by (auto simp: 1 2 3)
      from Suc.IH[OF this] w13 show ?thesis by (rule writes_only_trans[rotated])
    qed
  qed
qed

lemma expand_on_writes: "writes_only self h (expand_on ops self h node)"
  by (simp add: expand_on_def list_set_writes)

lemma backpropagate_step_on_writes:
  "writes_only self h (backpropagate_step_on ops self reward h node)"
proof -
  obtain nv h1 where 1: "int_get h (self_N self) node = (nv, h1)"
    by (cases "int_get h (self_N self) node")
  obtain qv h2 where 2: "int_get (int_set h1 (self_N self) node (nv + 1)) (self_Q self) node = (qv, h2)"
    by (cases "int_get (int_set h1 (self_N self) node (nv + 1)) (self_Q self) node")
  have w1: "writes_only self h h1" using 1 by (rule int_get_writes[rotated]) simp
  have w2: "writes_only self h1 (int_set h1 (self_N self) node (nv + 1))"
    by (rule int_set_writes) simp
  have w3: "writes_only self (int_set h1 (self_N self) node (nv + 1)) h2"
    using 2 by (rule int_get_writes[rotated]) simp
  have w4: "writes_only self h2 (int_set h2 (self_Q self) node v)" for v
    by (rule int_set_writes) simp
  have "writes_only self h (int_set h2 (self_Q self) node v)" for v
    using writes_only_trans[OF w1 writes_only_trans[OF w2 writes_only_trans[OF w3 w4]]] .
  then show ?thesis by (simp add: backpropagate_step_on_def 1 2)
qed

lemma backpropagate_on_writes: "writes_only self h (backpropagate_on ops self h path reward)"
proof -
  have "writes_only self h (foldl (backpropagate_step_on ops self reward) h xs)" for xs
  proof (induction xs rule: rev_induct)
    case Nil
    show ?case by simp
  next
    case (snoc x xs)
    have "writes_only self (foldl (backpropagate_step_on ops self reward) h xs)
            (backpropagate_step_on ops self reward
               (foldl (backpropagate_step_on ops self reward) h xs) x)"
      by (rule backpropagate_step_on_writes)
    with snoc show ?case by (simp add: writes_only_trans)
  qed
  then show ?thesis by (simp add: backpropagate_on_def)
qed

lemma do_rollout_on_writes:
  "do_rollout_on fuel ops self h node = (r, h') \<Longrightarrow> writes_only self h h'"
proof -
  assume a: "do_rollout_on fuel ops self h node = (r, h')"
  obtain r1 h1 where 1: "select_loop_on fuel ops self h node [] = (r1, h1)"
    by (cases "select_loop_on fuel ops self h node []")
  have w1: "writes_only self h h1" using 1 by (rule select_loop_on_writes)
  have w2: "writes_only self h (expand_on ops self h1 x)" for x
    using w1 expand_on_writes by (rule writes_only_trans)
  have w3: "writes_only self h (backpropagate_on ops self (expand_on ops self h1 x) p rw)" for x p rw
    using w2 backpropagate_on_writes by (rule writes_only_trans)
  have "h' = h1 \<or> (\<exists>x. h' = expand_on ops self h1 x) \<or>
        (\<exists>x p rw. h' = backpropagate_on ops self (expand_on ops self h1 x) p rw)"
    using a by (auto simp: do_rollout_on_def select_on_def 1 split: option.splits sum.splits if_splits)
  then show ?thesis using w1 w2 w3 by auto
qed

subsection \<open>Instances of a caller are separate\<close>

text \<open>
  The constructor gives a new instance three dictionaries that no instance created
  before holds; so the instances of a caller are separate, and a call on one of them
  leaves the tables of the others as they are.
\<close>

lemma writes_only_tables:
  "writes_only a h h' \<Longrightarrow> separate a b \<Longrightarrow> tables h' b = tables h b"
  by (simp add: writes_only_def separate_def tables_def)

lemma MCTS_new_fields:
  assumes "MCTS_new h ags w = (self, h')"
  shows "self_Q self = int_next h" "self_N self = Suc (int_next h)"
    "self_children self = list_next h" "self_agents self = ags"
    "self_exploration_weight self = w"
    "int_next h' = Suc (Suc (int_next h))" "list_next h' = Suc (list_next h)"
    "tables h' self = (Map.empty, Map.empty, Map.empty)"
    "\<And>r. r < int_next h \<Longrightarrow> int_dicts h' r = int_dicts h r"
    "\<And>r. r < list_next h \<Longrightarrow> list_dicts h' r = list_dicts h r"
  using assms
  by (auto simp: MCTS_new_def new_int_dict_def new_list_dict_def tables_def)

lemma caller_ok_empty: "caller_ok (empty_store, [])"
  by (simp add: caller_ok_def)

lemma caller_ok_writes:
  assumes "caller_ok (h, vars)" and "writes_only self h h'"
  shows "caller_ok (h', vars)"
  using assms by (simp add: caller_ok_def writes_only_def)

lemma caller_ok_new:
  assumes ok: "caller_ok (h, vars)" and new: "MCTS_new h ags w = (self, h')"
  shows "caller_ok (h', vars @ [self])"
proof -
  note f = MCTS_new_fields[OF new]
  have old: "self_Q (vars ! i) < int_next h" "self_N (vars ! i) < int_next h"
    "self_children (vars ! i) < list_next h" "self_Q (vars ! i) \<noteq> self_N (vars ! i)"
    if "i < length vars" for i
    using ok that by (simp_all add: caller_ok_def)
  have sep: "separate (vars ! i) (vars ! j)" if "i < length vars" "j < length vars" "i \<noteq> j" for i j
    using ok that by (simp add: caller_ok_def)
  have sn: "separate (vars ! i) self" "separate self (vars ! i)" if "i < length vars" for i
    using old[OF that] by (simp_all add: separate_def f)
  have a: "self_Q ((vars @ [self]) ! i) < int_next h' \<and>
          self_N ((vars @ [self]) ! i) < int_next h' \<and>
          self_children ((vars @ [self]) ! i) < list_next h' \<and>
          self_Q ((vars @ [self]) ! i) \<noteq> self_N ((vars @ [self]) ! i)"
    if "i < length (vars @ [self])" for i
  proof -
    from that consider "i < length vars" | "i = length vars" by force
    then show ?thesis
    proof cases
      case 1
      then show ?thesis using old[OF 1] by (simp add: nth_append f)
    next
      case 2
      then show ?thesis by (simp add: nth_append f)
    qed
  qed
  have b: "separate ((vars @ [self]) ! i) ((vars @ [self]) ! j)"
    if ij: "i < length (vars @ [self])" "j < length (vars @ [self])" "i \<noteq> j" for i j
  proof -
    from ij consider "i < length vars" "j < length vars"
      | "i < length vars" "j = length vars" | "i = length vars" "j < length vars" by force
    then show ?thesis
    proof cases
      case 1
      then show ?thesis using sep[OF 1 ij(3)] by (simp add: nth_append)
    next
      case 2
      then show ?thesis using sn(1)[OF 2(1)] by (simp add: nth_append)
    next
      case 3
      then show ?thesis using sn(2)[OF 3(2)] by (simp add: nth_append)
    qed
  qed
  show ?thesis unfolding caller_ok_def using a b by simp
qed

lemma exec_stmt_ok:
  assumes "caller_ok (h, vars)" and "exec_stmt fuel ops (h, vars) c = (b, (h', vars'))"
  shows "caller_ok (h', vars')"
proof (cases c)
  case (New_MCTS ags w)
  obtain self h1 where n: "MCTS_new h ags w = (self, h1)" by (cases "MCTS_new h ags w")
  have "h' = h1" "vars' = vars @ [self]" using assms(2) New_MCTS n by simp_all
  then show ?thesis using caller_ok_new[OF assms(1) n] by simp
next
  case (Call_do_rollout i node)
  show ?thesis
  proof (cases "length vars \<le> i")
    case True
    then show ?thesis using assms Call_do_rollout by simp
  next
    case False
    obtain r h1 where d: "do_rollout_on fuel ops (vars ! i) h node = (r, h1)"
      by (cases "do_rollout_on fuel ops (vars ! i) h node")
    have "h' = h1" "vars' = vars" using assms(2) Call_do_rollout False d by simp_all
    then show ?thesis using caller_ok_writes[OF assms(1) do_rollout_on_writes[OF d]] by simp
  qed
next
  case (Call_choose i node)
  show ?thesis
  proof (cases "length vars \<le> i")
    case True
    then show ?thesis using assms Call_choose by simp
  next
    case False
    obtain r h1 where d: "choose_on ops (vars ! i) h node = (r, h1)"
      by (cases "choose_on ops (vars ! i) h node")
    have "h' = h1" "vars' = vars" using assms(2) Call_choose False d by simp_all
    then show ?thesis using caller_ok_writes[OF assms(1) choose_on_writes[OF d]] by simp
  qed
qed

lemma exec_ok:
  "caller_ok st \<Longrightarrow> exec fuel ops st prog = st' \<Longrightarrow> caller_ok st'"
proof (induction prog arbitrary: st)
  case Nil
  then show ?case by simp
next
  case (Cons c prog)
  obtain h vars where st: "st = (h, vars)" by (cases st)
  obtain b h1 vars1 where e: "exec_stmt fuel ops (h, vars) c = (b, (h1, vars1))"
    by (cases "exec_stmt fuel ops (h, vars) c") auto
  have ok1: "caller_ok (h1, vars1)" using Cons.prems(1) e unfolding st by (rule exec_stmt_ok)
  show ?case
  proof (cases b)
    case True
    then have "exec fuel ops (h1, vars1) prog = st'" using Cons.prems(2) e st by simp
    from Cons.IH[OF ok1 this] show ?thesis .
  next
    case False
    then have "st' = (h1, vars1)" using Cons.prems(2) e st by auto
    then show ?thesis using ok1 by simp
  qed
qed

lemma exec_stmt_call_frame:
  assumes ok: "caller_ok (h, vars)" and c: "calls_instance i c"
    and e: "exec_stmt fuel ops (h, vars) c = (b, (h', vars'))"
    and j: "j < length vars" "i \<noteq> j"
  shows "vars' = vars \<and> tables h' (vars ! j) = tables h (vars ! j)"
proof (cases "length vars \<le> i")
  case True
  then show ?thesis using c e by (cases c) auto
next
  case False
  then have s: "separate (vars ! i) (vars ! j)" using ok j by (simp add: caller_ok_def)
  show ?thesis
  proof (cases c)
    case (New_MCTS ags w)
    then show ?thesis using c by simp
  next
    case (Call_do_rollout k node)
    then have k: "k = i" using c by simp
    obtain r h1 where d: "do_rollout_on fuel ops (vars ! i) h node = (r, h1)"
      by (cases "do_rollout_on fuel ops (vars ! i) h node")
    have "h' = h1" "vars' = vars" using e Call_do_rollout k False d by simp_all
    then show ?thesis using writes_only_tables[OF do_rollout_on_writes[OF d] s] by simp
  next
    case (Call_choose k node)
    then have k: "k = i" using c by simp
    obtain r h1 where d: "choose_on ops (vars ! i) h node = (r, h1)"
      by (cases "choose_on ops (vars ! i) h node")
    have "h' = h1" "vars' = vars" using e Call_choose k False d by simp_all
    then show ?thesis using writes_only_tables[OF choose_on_writes[OF d] s] by simp
  qed
qed

lemma exec_calls_frame:
  "caller_ok (h, vars) \<Longrightarrow> list_all (calls_instance i) calls
     \<Longrightarrow> exec fuel ops (h, vars) calls = (h', vars') \<Longrightarrow> j < length vars \<Longrightarrow> i \<noteq> j
     \<Longrightarrow> vars' = vars \<and> tables h' (vars ! j) = tables h (vars ! j)"
proof (induction calls arbitrary: h)
  case Nil
  then show ?case by simp
next
  case (Cons c calls)
  obtain b h1 vars1 where e: "exec_stmt fuel ops (h, vars) c = (b, (h1, vars1))"
    by (cases "exec_stmt fuel ops (h, vars) c") auto
  have c: "calls_instance i c" and cs: "list_all (calls_instance i) calls"
    using Cons.prems(2) by simp_all
  from exec_stmt_call_frame[OF Cons.prems(1) c e Cons.prems(4,5)]
  have v1: "vars1 = vars" and t1: "tables h1 (vars ! j) = tables h (vars ! j)" by simp_all
  have ok1: "caller_ok (h1, vars)" using exec_stmt_ok[OF Cons.prems(1) e] v1 by simp
  show ?case
  proof (cases b)
    case True
    then have "exec fuel ops (h1, vars) calls = (h', vars')" using Cons.prems(3) e v1 by simp
    from Cons.IH[OF ok1 cs this Cons.prems(4,5)] t1 show ?thesis by simp
  next
    case False
    then have "h' = h1" "vars' = vars" using Cons.prems(3) e v1 by auto
    then show ?thesis using t1 by simp
  qed
qed

subsection \<open>The two embeddings agree\<close>

text \<open>
  On an instance whose \<open>Q\<close> and \<open>N\<close> are two dictionaries, every method on the store
  returns what the method of the first embedding returns on the view of the
  instance, and leaves the store whose view is the instance returned there.
\<close>

lemma view_fields [simp]:
  "agents (view h self) = self_agents self" "Q (view h self) = int_dicts h (self_Q self)"
  "N (view h self) = int_dicts h (self_N self)"
  "children (view h self) = list_dicts h (self_children self)"
  "exploration_weight (view h self) = self_exploration_weight self"
  by (simp_all add: view_def)

lemma getN_on:
  "self_Q self \<noteq> self_N self \<Longrightarrow>
     getN (view h self) n = (fst (int_get h (self_N self) n), view (snd (int_get h (self_N self) n)) self)"
  by (simp add: getN_def int_get_def view_def split: prod.splits)

lemma getQ_on:
  "self_Q self \<noteq> self_N self \<Longrightarrow>
     getQ (view h self) n = (fst (int_get h (self_Q self) n), view (snd (int_get h (self_Q self) n)) self)"
  by (simp add: getQ_def int_get_def view_def split: prod.splits)

lemma getC_on:
  "getC (view h self) n
     = (fst (list_get h (self_children self) n), view (snd (list_get h (self_children self) n)) self)"
  by (simp add: getC_def list_get_def view_def split: prod.splits)

lemma list_has_view: "list_has h (self_children self) n \<longleftrightarrow> children (view h self) n \<noteq> None"
  by (simp add: list_has_def)

lemma int_get_again:
  "int_get h r n = (v, h1) \<Longrightarrow> int_get h1 r n = (v, h1)"
  by (auto simp: int_get_def dd_get_def split: option.splits)

lemma int_get_other:
  "int_get h r n = (v, h1) \<Longrightarrow> r' \<noteq> r \<Longrightarrow> int_get h1 r' m = (v', h2)
     \<Longrightarrow> int_get h2 r n = (v, h2)"
  by (auto simp: int_get_def dd_get_def split: option.splits)

lemma list_get_again:
  "list_get h r n = (v, h1) \<Longrightarrow> list_get h1 r n = (v, h1)"
  by (auto simp: list_get_def dd_get_def split: option.splits)

lemma list_get_present:
  "list_has h r n \<Longrightarrow> list_get h r n = (the (list_dicts h r n), h)"
  by (auto simp: list_get_def list_has_def dd_get_def)

lemma score_on_view:
  assumes d: "self_Q self \<noteq> self_N self"
  shows "score ops (view h self) n = lift_on self (score_on ops self h n)"
proof -
  obtain nv h1 where 1: "int_get h (self_N self) n = (nv, h1)" by (cases "int_get h (self_N self) n")
  obtain qv h2 where 2: "int_get h1 (self_Q self) n = (qv, h2)"
    by (cases "int_get h1 (self_Q self) n")
  have 3: "int_get h2 (self_N self) n = (nv, h2)" using 1 d 2 by (rule int_get_other)
  show ?thesis
    by (simp add: score_def score_on_def lift_on_def getN_on[OF d] getQ_on[OF d] 1 2 3
             split: sum.splits)
qed

lemma keys_on_view:
  assumes "\<And>h x. f (view h self) x = lift_on self (g h x)"
  shows "keys_of f (view h self) xs = lift_on self (keys_on g h xs)"
proof (induction xs arbitrary: h)
  case Nil
  show ?case by (simp add: lift_on_def)
next
  case (Cons x xs)
  obtain r1 h1 where 1: "g h x = (r1, h1)" by (cases "g h x")
  show ?case
  proof (cases r1)
    case (Inl e)
    then show ?thesis using assms[of h x] 1 by (simp add: lift_on_def)
  next
    case (Inr k)
    obtain r2 h2 where 2: "keys_on g h1 xs = (r2, h2)" by (cases "keys_on g h1 xs")
    have "f (view h self) x = Inr (k, view h1 self)" using assms[of h x] 1 Inr by (simp add: lift_on_def)
    then show ?thesis using Cons.IH[of h1] 1 Inr 2 by (cases r2) (simp_all add: lift_on_def)
  qed
qed

lemma choose_on_view:
  assumes d: "self_Q self \<noteq> self_N self"
  shows "MCTS_choose ops (view h self) node = lift_on self (choose_on ops self h node)"
proof (cases "is_terminal ops node \<or> \<not> list_has h (self_children self) node")
  case True
  then show ?thesis
    by (auto simp: MCTS_choose_def choose_on_def lift_on_def list_has_def)
next
  case False
  then obtain cs where c: "list_dicts h (self_children self) node = Some cs"
    by (auto simp: list_has_def)
  have g: "list_get h (self_children self) node = (cs, h)"
    using False c list_get_present[of h "self_children self" node] by simp
  obtain r2 h2 where 2: "keys_on (score_on ops self) h cs = (r2, h2)"
    by (cases "keys_on (score_on ops self) h cs")
  have k: "keys_of (score ops) (view h self) cs = lift_on self (r2, h2)"
    using keys_on_view[where f = "score ops" and g = "score_on ops self" and self = self
                         and h = h and xs = cs, OF score_on_view[OF d]] 2 by simp
  show ?thesis using False c g 2 k
    by (cases r2) (auto simp: MCTS_choose_def choose_on_def lift_on_def list_has_def split: sum.splits)
qed

lemma uct_on_view:
  assumes d: "self_Q self \<noteq> self_N self"
  shows "uct ops l (view h self) n = lift_on self (uct_on ops self l h n)"
proof -
  obtain qv h1 where 1: "int_get h (self_Q self) n = (qv, h1)" by (cases "int_get h (self_Q self) n")
  obtain nv h2 where 2: "int_get h1 (self_N self) n = (nv, h2)"
    by (cases "int_get h1 (self_N self) n")
  have 3: "int_get h2 (self_N self) n = (nv, h2)" using 2 by (rule int_get_again)
  show ?thesis
    by (simp add: uct_def uct_on_def lift_on_def getN_on[OF d] getQ_on[OF d] 1 2 3
             split: sum.splits)
qed

lemma uct_select_on_view:
  assumes d: "self_Q self \<noteq> self_N self"
  shows "uct_select ops (view h self) node = lift_on self (uct_select_on ops self h node)"
proof -
  obtain cs h1 where 1: "list_get h (self_children self) node = (cs, h1)"
    by (cases "list_get h (self_children self) node")
  obtain nv h2 where 2: "int_get h1 (self_N self) node = (nv, h2)"
    by (cases "int_get h1 (self_N self) node")
  have l12: "list_dicts h2 = list_dicts h1" using 2 by (auto simp: int_get_def split: prod.splits)
  have "list_dicts h1 (self_children self) node = Some cs"
    using 1 by (auto simp: list_get_def dd_get_def split: option.splits)
  then have 3: "list_get h2 (self_children self) node = (cs, h2)"
    using l12 by (simp add: list_get_def dd_get_def)
  have k: "keys_of (uct ops l) (view h2 self) cs = lift_on self (keys_on (uct_on ops self l) h2 cs)" for l
    using keys_on_view[where f = "uct ops l" and g = "uct_on ops self l" and self = self
                         and h = h2 and xs = cs, OF uct_on_view[OF d]] by simp
  show ?thesis
  proof (cases "\<not> list_all (\<lambda>n. list_has h1 (self_children self) n) cs \<or> nv \<le> 0")
    case True
    then show ?thesis
      by (auto simp: uct_select_def uct_select_on_def lift_on_def getC_on getN_on[OF d] 1 2
            list_has_def)
  next
    case False
    show ?thesis
    proof (cases "float_log ops nv")
      case (Inl e)
      then show ?thesis using False
        by (auto simp: uct_select_def uct_select_on_def lift_on_def getC_on getN_on[OF d] 1 2
              list_has_def)
    next
      case (Inr l)
      obtain r4 h4 where 4: "keys_on (uct_on ops self l) h2 cs = (r4, h4)"
        by (cases "keys_on (uct_on ops self l) h2 cs")
      show ?thesis using False Inr k[of l] 4
        by (cases r4)
           (auto simp: uct_select_def uct_select_on_def lift_on_def getC_on getN_on[OF d] 1 2 3
              list_has_def split: sum.splits)
    qed
  qed
qed

lemma select_loop_on_view:
  assumes d: "self_Q self \<noteq> self_N self"
  shows "select_loop_on fuel ops self h node path = (Some r, h')
           \<Longrightarrow> select_loop ops (view h self) node path = Some (lift_on self (r, h'))"
proof (induction fuel arbitrary: h node path)
  case 0
  then show ?case by simp
next
  case (Suc fuel)
  show ?case
  proof (cases "list_dicts h (self_children self) node")
    case None
    then show ?thesis using Suc.prems
      by (subst select_loop.simps) (auto simp: list_has_def lift_on_def)
  next
    case (Some cs)
    then have has: "list_has h (self_children self) node" by (simp add: list_has_def)
    have g: "list_get h (self_children self) node = (cs, h)"
      using list_get_present[OF has] Some by simp
    obtain r3 h3 where 3: "uct_select_on ops self h node = (r3, h3)"
      by (cases "uct_select_on ops self h node")
    have u: "uct_select ops (view h self) node = lift_on self (r3, h3)"
      using uct_select_on_view[OF d, of ops h node] 3 by simp
    have f: "filter (\<lambda>item. \<not> list_has h (self_children self) item) cs
               = filter (\<lambda>item. children (view h self) item = None) cs"
      by (simp add: list_has_def)
    show ?thesis
    proof (cases "cs = [] \<or> is_terminal ops node \<or>
                  filter (\<lambda>item. \<not> list_has h (self_children self) item) cs \<noteq> []")
      case True
      then show ?thesis using Suc.prems has Some g f
        by (subst select_loop.simps) (auto simp: lift_on_def split: if_splits)
    next
      case False
      show ?thesis
      proof (cases r3)
        case (Inl e)
        then have "r = Inl e" using Suc.prems has g False 3 by auto
        then show ?thesis using False Some f u Inl
          by (subst select_loop.simps) (auto simp: lift_on_def)
      next
        case (Inr n)
        then have "select_loop_on fuel ops self h3 n (path @ [node]) = (Some r, h')"
          using Suc.prems has g False 3 by auto
        from Suc.IH[OF this] show ?thesis using False Some f u Inr
          by (subst select_loop.simps) (auto simp: lift_on_def)
      qed
    qed
  qed
qed

lemma expand_on_view: "expand ops (view h self) node = view (expand_on ops self h node) self"
  by (auto simp: expand_def expand_on_def list_has_def list_set_def view_def split: option.splits)

lemma simulate_on_view: "simulate ops (view h self) node = simulate_on ops self node"
  by (simp add: simulate_def simulate_on_def)

lemma backpropagate_step_on_view:
  assumes d: "self_Q self \<noteq> self_N self"
  shows "backpropagate_step ops reward (view h self) node
           = view (backpropagate_step_on ops self reward h node) self"
  using d
  by (auto simp: backpropagate_step_def backpropagate_step_on_def Let_def int_get_def int_set_def
        dd_get_def view_def split: option.splits)

lemma backpropagate_on_view:
  assumes d: "self_Q self \<noteq> self_N self"
  shows "backpropagate ops (view h self) path reward
           = view (backpropagate_on ops self h path reward) self"
proof -
  have "foldl (backpropagate_step ops reward) (view h self) xs
          = view (foldl (backpropagate_step_on ops self reward) h xs) self" for xs
    by (induction xs rule: rev_induct) (simp_all add: backpropagate_step_on_view[OF d])
  then show ?thesis by (simp add: backpropagate_def backpropagate_on_def)
qed

lemma do_rollout_on_view:
  assumes d: "self_Q self \<noteq> self_N self"
    and r: "do_rollout_on fuel ops self h node = (Some r, h')"
  shows "do_rollout ops (view h self) node
           = Some (case r of Inl e \<Rightarrow> Inl e | Inr u \<Rightarrow> Inr (view h' self))"
proof -
  obtain r1 h1 where 1: "select_loop_on fuel ops self h node [] = (r1, h1)"
    by (cases "select_loop_on fuel ops self h node []")
  from r 1 obtain x where x: "r1 = Some x"
    by (cases r1) (auto simp: do_rollout_on_def select_on_def)
  have s: "select ops (view h self) node = Some (lift_on self (x, h1))"
    using select_loop_on_view[OF d, of fuel ops h node "[]" x h1] 1 x by (simp add: select_def)
  show ?thesis
  proof (cases x)
    case (Inl e)
    then show ?thesis using r 1 x s
      by (auto simp: do_rollout_def do_rollout_on_def select_on_def lift_on_def)
  next
    case (Inr path)
    show ?thesis using r 1 x s Inr
      by (auto simp: do_rollout_def do_rollout_on_def select_on_def lift_on_def expand_on_view
            simulate_on_view backpropagate_on_view[OF d] split: option.splits sum.splits if_splits)
  qed
qed

section \<open>The small game, evaluated\<close>

lemma ex_fields:
  "Q (ex_state q n c) = q" "N (ex_state q n c) = n" "children (ex_state q n c) = c"
  "agents (ex_state q n c) = ex_agents" "exploration_weight (ex_state q n c) = 141 / 100"
  "(ex_state q n c)\<lparr>Q := q'\<rparr> = ex_state q' n c"
  "(ex_state q n c)\<lparr>N := n'\<rparr> = ex_state q n' c"
  "(ex_state q n c)\<lparr>children := c'\<rparr> = ex_state q n c'"
  by (simp_all add: ex_state_def)

lemma ex_ops_fields:
  "is_terminal ex_ops x = (x = NodeB)" "find_children ex_ops = ex_children"
  "find_random_child ex_ops x = NodeB" "state ex_ops x = x" "clone ex_ops g = g"
  "winner ex_ops g = (if g = NodeB then Some SECOND else None)"
  "current_player_id ex_ops g = (if g = NodeC then SECOND else FIRST)"
  "act ex_ops g a = Inr a"
  "float_div_int ex_ops i j = Inr (real_of_int i / real_of_int j)"
  "float_log ex_ops j = Inr (ln (real_of_int j))"
  "float_div ex_ops y j = Inr (y / real_of_int j)"
  "float_sqrt ex_ops y = (if y < 0 then Inl FloatValueError else Inr (sqrt y))"
  "float_mul ex_ops y z = y * z" "float_add ex_ops y z = y + z" "float_1_41 ex_ops = 141 / 100"
  by (simp_all add: ex_ops_def)

lemma ex_sim: "simulate ex_ops (ex_state q n c) x = Some (Inr (- 1))"
  by (cases x)
     (simp_all add: simulate_def ex_fields ex_ops_fields ex_agents_def simulate_loop.simps)

lemmas ex_eval = do_rollout_def select_def select_loop_unfold select_stop_def ex_sim expand_def
  backpropagate_def backpropagate_step_def dd_get_def ex_fields ex_ops_fields
  uct_select_def uct_def getC_def getN_def getQ_def

lemmas ex_states = ex_s0_def ex_s1_def ex_s2_def ex_s3_def ex_s4_def ex_s5_def ex_tables_def
  exC_s1_def exC_s2_def exC_s3_def

lemma ex_init: "MCTS_init_default ex_ops ex_agents = ex_s0"
  by (simp add: MCTS_init_default_def MCTS_init_def ex_s0_def ex_state_def ex_ops_fields)

lemma ex_rollout_1: "do_rollout ex_ops ex_s0 NodeR = Some (Inr ex_s1)"
  unfolding ex_states by (simp add: ex_eval)

lemma ex_rollout_2: "do_rollout ex_ops ex_s1 NodeR = Some (Inr ex_s2)"
  unfolding ex_states by (simp add: ex_eval) (simp add: fun_upd_twist)

lemma ex_rollout_3: "do_rollout ex_ops ex_s2 NodeR = Some (Inr ex_s3)"
  unfolding ex_states by (simp add: ex_eval) (simp add: fun_upd_twist)

lemma ex_rollout_4: "do_rollout ex_ops ex_s3 NodeR = Some (Inr ex_s4)"
  unfolding ex_states by (simp add: ex_eval) (simp add: fun_upd_twist)

lemma ex_rollout_5: "do_rollout ex_ops ex_s4 NodeR = Some (Inr ex_s5)"
  unfolding ex_states by (simp add: ex_eval) (simp add: fun_upd_twist)

lemma ex_rollouts_5: "do_rollouts 5 ex_ops ex_s0 NodeR = Some (Inr ex_s5)"
  by (simp add: eval_nat_numeral ex_rollout_1 ex_rollout_2 ex_rollout_3 ex_rollout_4 ex_rollout_5)

lemma exC_rollout_1: "do_rollout ex_ops ex_s0 NodeC = Some (Inr exC_s1)"
  unfolding ex_states by (simp add: ex_eval)

lemma exC_rollout_2: "do_rollout ex_ops exC_s1 NodeC = Some (Inr exC_s2)"
  unfolding ex_states by (simp add: ex_eval) (simp add: fun_upd_twist)

lemma exC_rollout_3: "do_rollout ex_ops exC_s2 NodeC = Some (Inr exC_s3)"
  unfolding ex_states by (simp add: ex_eval) (simp add: fun_upd_twist)

lemma exC_rollouts_3: "do_rollouts 3 ex_ops ex_s0 NodeC = Some (Inr exC_s3)"
  by (simp add: eval_nat_numeral exC_rollout_1 exC_rollout_2 exC_rollout_3)

lemma ex_plays_to: "plays_to (Suc 0) ex_ops ex_agents NodeC NodeB"
  by (simp add: plays_to_Suc plays_to_0 agent_step_def ex_ops_fields ex_agents_def)

lemma ex_uct_select_s3: "uct_select ex_ops ex_s3 NodeR = Inr (NodeC, ex_s3)"
  unfolding ex_states by (simp add: ex_eval)

lemma ex_uct_select_s1: "uct_select ex_ops ex_s1 NodeR = Inl AssertionError"
  unfolding ex_states by (simp add: ex_eval)

lemma ex_select_s1: "select ex_ops ex_s1 NodeR = Some (Inr ([NodeR, NodeC], ex_s1))"
  unfolding ex_states by (simp add: ex_eval)

lemma ex_choose_s1:
  "MCTS_choose ex_ops ex_s1 NodeR
     = Inr (NodeB, ex_state [NodeR \<mapsto> - 1] [NodeR \<mapsto> 1, NodeB \<mapsto> 0, NodeC \<mapsto> 0]
                     [NodeR \<mapsto> [NodeB, NodeC]])"
  unfolding ex_states
  by (simp add: MCTS_choose_def score_def getN_def getQ_def dd_get_def ex_fields ex_ops_fields)

lemma ex_choose_s3: "MCTS_choose ex_ops ex_s3 NodeR = Inr (NodeC, ex_s3)"
  unfolding ex_states
  by (simp add: MCTS_choose_def score_def getN_def getQ_def dd_get_def ex_fields ex_ops_fields)

lemma ex_s3_values:
  "children ex_s3 NodeR = Some [NodeB, NodeC]" "children ex_s0 NodeR = None"
  "N_of ex_s3 NodeB = 1" "N_of ex_s3 NodeC = 1"
  "avg_reward ex_ops ex_s3 NodeB = Inr (Some (- 1))" "avg_reward ex_ops ex_s3 NodeC = Inr (Some 1)"
  by (simp_all add: ex_states ex_fields ex_ops_fields avg_reward_def N_of_def Q_of_def)

lemma stuck_fields:
  "is_terminal stuck_ops x = False" "find_children stuck_ops x = []"
  "state stuck_ops x = False" "clone stuck_ops g = g"
  "winner stuck_ops g = (if g then Some SECOND else None)"
  "current_player_id stuck_ops g = FIRST" "act stuck_ops g a = Inr True"
  "float_log stuck_ops j = Inr (ln (real_of_int j))" "float_1_41 stuck_ops = 141 / 100"
  by (simp_all add: stuck_ops_def)

lemma stuck_rollout: "do_rollout stuck_ops (MCTS_init_default stuck_ops stuck_agents) () = Some (Inr stuck_state)"
  by (simp add: do_rollout_def select_def select_loop_unfold select_stop_def expand_def
        simulate_def simulate_loop.simps backpropagate_def backpropagate_step_def dd_get_def
        MCTS_init_default_def MCTS_init_def stuck_fields stuck_agents_def stuck_state_def)

lemma ex_select_s3: "select ex_ops ex_s3 NodeR = Some (Inr ([NodeR, NodeC, NodeB], ex_s3))"
  unfolding ex_states by (simp add: ex_eval)

lemma ex_select_s0: "select ex_ops ex_s0 NodeR = Some (Inr ([NodeR], ex_s0))"
  unfolding ex_states by (simp add: ex_eval)

lemma ex_tree_at_C: "tree_at ex_ops NodeC"
proof -
  have "\<not> (is_child ex_ops)\<^sup>+\<^sup>+ NodeB NodeB"
  proof
    assume "(is_child ex_ops)\<^sup>+\<^sup>+ NodeB NodeB"
    then obtain z where "is_child ex_ops NodeB z" by (auto dest: tranclpD)
    then show False by (simp add: is_child_def ex_ops_fields)
  qed
  then show ?thesis by (simp add: tree_at_def ex_ops_fields)
qed

lemma ex_s5_values:
  "N_of ex_s5 NodeR = 5" "children_of ex_s5 NodeR = [NodeB, NodeC]"
  "sum_list (map (N_of ex_s5) (children_of ex_s5 NodeR)) = 6"
  by (simp_all add: ex_states ex_fields N_of_def children_of_def)

lemma exC_s3_values:
  "N_of exC_s3 NodeC = 3" "children_of exC_s3 NodeC = [NodeB]"
  "sum_list (map (N_of exC_s3) (children_of exC_s3 NodeC)) = 2"
  by (simp_all add: ex_states ex_fields N_of_def children_of_def)

lemma ex_wfp: "wfp (\<lambda>c n. is_child ex_ops n c)"
proof (rule wfp_if_convertible_to_nat)
  fix c n
  assume "is_child ex_ops n c"
  then show "length (ex_children c) < length (ex_children n)"
    by (cases n) (auto simp: is_child_def ex_ops_fields)
qed

lemma ex_uct_computes: "uct_computes ex_ops j"
proof -
  have "\<not> ln (real_of_int p) / real_of_int n < 0" if "0 < p" "0 < n" for p n :: int
  proof -
    have "1 \<le> real_of_int p" using that(1) by simp
    then have "0 \<le> ln (real_of_int p)" by simp
    moreover have "0 < real_of_int n" using that(2) by simp
    ultimately show ?thesis by (simp add: divide_less_0_iff not_less)
  qed
  then show ?thesis by (simp add: uct_computes_def ex_ops_fields)
qed

lemma ex_uct_scores_s3:
  "uct_score ex_ops ex_s3 NodeR NodeB = Inr (- 1 + 141 / 100 * sqrt (ln 3))"
  "uct_score ex_ops ex_s3 NodeR NodeC = Inr (1 + 141 / 100 * sqrt (ln 3))"
  by (simp_all add: uct_score_def uct_val_def ex_states ex_fields ex_ops_fields N_of_def Q_of_def)

lemma ex_zero_values:
  "children ex_zero NodeR = Some [NodeB]" "list_all (\<lambda>c. children ex_zero c \<noteq> None) [NodeB]"
  "uct_score ex_ops ex_zero NodeR NodeB = Inl ZeroDivisionError"
  by (simp_all add: ex_zero_def ex_fields ex_ops_fields uct_score_def uct_val_def N_of_def)

lemma ex_ovf_values:
  "\<not> is_terminal ovf_ops NodeR" "children ex_ovf NodeR = Some [NodeB, NodeC]"
  "avg_reward ovf_ops ex_ovf NodeB = Inl OverflowError"
  by (simp_all add: ex_ovf_def ovf_ops_def ex_fields ex_ops_def avg_reward_def N_of_def Q_of_def)

lemma ex_uct_s3_less: "- 1 + 141 / 100 * sqrt (ln 3) < 1 + 141 / 100 * sqrt (ln (3::real))"
  by simp
lemma ex_store_fields:
  "int_dicts (ex_store q n c) 0 = q" "int_dicts (ex_store q n c) (Suc 0) = n"
  "list_dicts (ex_store q n c) 0 = c" "int_next (ex_store q n c) = 4"
  "list_next (ex_store q n c) = 2"
  "(ex_store q n c)\<lparr>int_dicts := (int_dicts (ex_store q n c))(0 := q')\<rparr> = ex_store q' n c"
  "(ex_store q n c)\<lparr>int_dicts := (int_dicts (ex_store q n c))(Suc 0 := n')\<rparr> = ex_store q n' c"
  "(ex_store q n c)\<lparr>list_dicts := (list_dicts (ex_store q n c))(0 := c')\<rparr> = ex_store q n c'"
  by (simp_all add: ex_store_def fun_eq_iff)

lemma ex_ref_fields:
  "self_Q ex_a = 0" "self_N ex_a = Suc 0" "self_children ex_a = 0" "self_agents ex_a = ex_agents"
  "self_exploration_weight ex_a = 141 / 100"
  "self_Q ex_b = 2" "self_N ex_b = 3" "self_children ex_b = Suc 0"
  "self_Q ex_shared = 2" "self_N ex_shared = Suc 0" "self_children ex_shared = Suc 0"
  by (simp_all add: ex_a_def ex_b_def ex_shared_def)

lemma ex_exec_prog:
  "exec fuel ex_ops (empty_store, []) ex_prog = (ex_store Map.empty Map.empty Map.empty, [ex_a, ex_b])"
  by (simp add: ex_prog_def MCTS_new_def new_int_dict_def new_list_dict_def empty_store_def
        ex_store_def ex_a_def ex_b_def fun_eq_iff)

lemma ex_sim_on: "simulate_on ex_ops ex_a x = Some (Inr (- 1))"
  by (cases x)
     (simp_all add: simulate_on_def ex_ref_fields ex_ops_fields ex_agents_def simulate_loop.simps)

lemmas ex_eval_on = do_rollout_on_def select_on_def expand_on_def backpropagate_on_def
  backpropagate_step_on_def choose_on_def score_on_def int_get_def int_set_def list_get_def
  list_set_def list_has_def dd_get_def ex_store_fields ex_ref_fields ex_ops_fields ex_sim_on

lemma ex_rollout_on:
  "do_rollout_on (Suc fuel) ex_ops ex_a (ex_store Map.empty Map.empty Map.empty) NodeR
     = (Some (Inr ()), ex_store [NodeR \<mapsto> - 1] [NodeR \<mapsto> 1] [NodeR \<mapsto> [NodeB, NodeC]])"
  by (simp add: ex_eval_on) (simp add: ex_store_def fun_eq_iff)

lemma ex_choose_on:
  "choose_on ex_ops ex_a (ex_store [NodeR \<mapsto> - 1] [NodeR \<mapsto> 1] [NodeR \<mapsto> [NodeB, NodeC]]) NodeR
     = (Inr NodeB, ex_store [NodeR \<mapsto> - 1] [NodeR \<mapsto> 1, NodeB \<mapsto> 0, NodeC \<mapsto> 0]
                     [NodeR \<mapsto> [NodeB, NodeC]])"
  by (simp add: ex_eval_on)

lemma ex_exec_calls:
  "exec (Suc fuel) ex_ops (ex_store Map.empty Map.empty Map.empty, [ex_a, ex_b]) ex_calls
     = (ex_store [NodeR \<mapsto> - 1] [NodeR \<mapsto> 1, NodeB \<mapsto> 0, NodeC \<mapsto> 0]
          [NodeR \<mapsto> [NodeB, NodeC]], [ex_a, ex_b])"
  by (simp add: ex_calls_def ex_rollout_on ex_choose_on)

lemma ex_tables:
  "tables (ex_store q n c) ex_a = (q, n, c)"
  "tables (ex_store q n c) ex_b = (Map.empty, Map.empty, Map.empty)"
  "tables (ex_store q n c) ex_shared = (Map.empty, n, Map.empty)"
  by (simp_all add: tables_def ex_store_def ex_ref_fields)

lemma ex_view: "view (ex_store q n c) ex_a = ex_state q n c"
  by (simp add: view_def ex_state_def ex_store_fields ex_ref_fields)

text \<open>
  Instances that hold one dictionary in common do interfere: a rollout on \<open>ex_a\<close>
  changes the \<open>N\<close> of \<open>ex_shared\<close>.
\<close>

lemma shared_dictionary_interferes:
  "\<not> separate ex_a ex_shared \<and>
   tables (ex_store Map.empty Map.empty Map.empty) ex_shared = (Map.empty, Map.empty, Map.empty) \<and>
   tables (snd (do_rollout_on (Suc fuel) ex_ops ex_a (ex_store Map.empty Map.empty Map.empty) NodeR))
     ex_shared = (Map.empty, [NodeR \<mapsto> 1], Map.empty)"
  by (simp add: ex_rollout_on ex_tables) (simp add: separate_def ex_ref_fields)
section \<open>Claims\<close>

subsection \<open>C1: visit counts after k rollouts\<close>

text \<open>
  C1, as the claim states it, fails in its second part. In the small game
  \<open>NodeB\<close> is a child of \<open>NodeR\<close> and of \<open>NodeC\<close>, itself a child of \<open>NodeR\<close>: the
  fourth and the fifth rollout from \<open>NodeR\<close> run through \<open>NodeC\<close> and \<open>NodeB\<close>, two
  children of the root on one path. After five rollouts the root has 5 visits and
  its children together 6.
\<close>

theorem children_visits_counterexample:
  "do_rollouts 5 ex_ops (MCTS_init_default ex_ops ex_agents) NodeR = Some (Inr ex_s5) \<and>
   N_of ex_s5 NodeR = 5 \<and>
   sum_list (map (N_of ex_s5) (children_of ex_s5 NodeR)) = 6 \<and>
   \<not> sum_list (map (N_of ex_s5) (children_of ex_s5 NodeR)) \<le> N_of ex_s5 NodeR"
  by (simp add: ex_init ex_rollouts_5 ex_s5_values(1,3))

text \<open>
  C1, amended. After \<open>k\<close> calls of \<^verbatim>\<open>do_rollout(rt)\<close> on a fresh instance that have
  all returned, the visit count of \<open>rt\<close> is \<open>k\<close>. If moreover the children of \<open>rt\<close>
  are pairwise different and no child of \<open>rt\<close> is reached from a child of \<open>rt\<close> by
  one or more \<^verbatim>\<open>find_children\<close> steps, the visit counts of the children listed
  for \<open>rt\<close> sum to at most the visit count of \<open>rt\<close>. Where the \<^verbatim>\<open>find_children\<close>
  relation has no infinite descending chain and every simulation returns a reward,
  the \<open>k\<close> calls end, each returning or raising; and they all return if the float
  operations of \<open>uct\<close> return on visit counts from 1 to \<open>k\<close> and cumulative rewards
  between minus the count and the count.
\<close>

theorem rollouts_visit_counts:
  "(do_rollouts k ops (MCTS_init ags w) rt = Some (Inr s)
      \<longrightarrow> N_of s rt = int k \<and>
          (tree_at ops rt \<longrightarrow> sum_list (map (N_of s) (children_of s rt)) \<le> N_of s rt)) \<and>
   (wfp (\<lambda>c n. is_child ops n c) \<and>
    (\<forall>n. \<exists>r. simulate ops (MCTS_init ags w) n = Some (Inr r))
      \<longrightarrow> (\<exists>res. do_rollouts k ops (MCTS_init ags w) rt = Some res) \<and>
          (uct_computes ops (int k)
             \<longrightarrow> (\<exists>s'. do_rollouts k ops (MCTS_init ags w) rt = Some (Inr s'))))"
proof -
  have a1: "do_rollouts k ops (MCTS_init ags w) rt = Some (Inr s)
      \<longrightarrow> N_of s rt = int k \<and>
          (tree_at ops rt \<longrightarrow> sum_list (map (N_of s) (children_of s rt)) \<le> N_of s rt)"
  proof
    assume r: "do_rollouts k ops (MCTS_init ags w) rt = Some (Inr s)"
    have n: "N_of s rt = int k" using do_rollouts_N_root[OF r] by (simp add: N_of_init)
    have "sum_list (map (N_of s) (children_of s rt)) \<le> N_of s rt" if t: "tree_at ops rt"
    proof -
      have "sum_list (map (N_of (MCTS_init ags w)) (find_children ops rt)) = 0"
        by (induction "find_children ops rt") (simp_all add: N_of_init)
      then have "sum_list (map (N_of (MCTS_init ags w)) (find_children ops rt))
                   \<le> N_of (MCTS_init ags w) rt" by (simp add: N_of_init)
      from do_rollouts_sum[OF r children_sound_init t this]
      have c: "children_sound ops s"
        and l: "sum_list (map (N_of s) (find_children ops rt)) \<le> N_of s rt" by simp_all
      show ?thesis
      proof (cases "children s rt")
        case None
        then show ?thesis using n by (simp add: children_of_def)
      next
        case (Some cs)
        then have "cs = find_children ops rt" using c by (simp add: children_sound_def)
        then show ?thesis using l Some by (simp add: children_of_def)
      qed
    qed
    with n show "N_of s rt = int k \<and>
          (tree_at ops rt \<longrightarrow> sum_list (map (N_of s) (children_of s rt)) \<le> N_of s rt)"
      by simp
  qed
  have a2: "wfp (\<lambda>c n. is_child ops n c) \<and>
    (\<forall>n. \<exists>r. simulate ops (MCTS_init ags w) n = Some (Inr r))
      \<longrightarrow> (\<exists>res. do_rollouts k ops (MCTS_init ags w) rt = Some res) \<and>
          (uct_computes ops (int k)
             \<longrightarrow> (\<exists>s'. do_rollouts k ops (MCTS_init ags w) rt = Some (Inr s')))"
  proof (intro impI, elim conjE)
    assume wf: "wfp (\<lambda>c n. is_child ops n c)"
      and sim: "\<forall>n. \<exists>r. simulate ops (MCTS_init ags w) n = Some (Inr r)"
    have sim': "\<exists>r. simulate ops (MCTS_init ags w) n = Some (Inr r)" for n using sim by simp
    have e: "\<exists>res. do_rollouts k ops (MCTS_init ags w) rt = Some res"
      using wf children_sound_init sim' by (rule do_rollouts_terminates)
    have "\<exists>s'. do_rollouts k ops (MCTS_init ags w) rt = Some (Inr s')"
      if u: "uct_computes ops (int k)"
    proof -
      have u0: "uct_computes ops (0 + int k)" using u by simp
      from do_rollouts_returns[OF wf u0 visits_ok_init children_sound_init stats_bounded_init sim']
      show ?thesis .
    qed
    with e show "(\<exists>res. do_rollouts k ops (MCTS_init ags w) rt = Some res) \<and>
          (uct_computes ops (int k)
             \<longrightarrow> (\<exists>s'. do_rollouts k ops (MCTS_init ags w) rt = Some (Inr s')))" by simp
  qed
  show ?thesis by (rule conjI[OF a1 a2])
qed

theorem rollouts_visit_counts_witness:
  "wfp (\<lambda>c n. is_child ex_ops n c) \<and> uct_computes ex_ops 3 \<and>
   simulate ex_ops (MCTS_init ex_agents (141 / 100)) NodeR = Some (Inr (- 1)) \<and>
   simulate ex_ops (MCTS_init ex_agents (141 / 100)) NodeB = Some (Inr (- 1)) \<and>
   simulate ex_ops (MCTS_init ex_agents (141 / 100)) NodeC = Some (Inr (- 1)) \<and>
   do_rollouts 3 ex_ops (MCTS_init ex_agents (141 / 100)) NodeC = Some (Inr exC_s3) \<and>
   tree_at ex_ops NodeC \<and>
   N_of exC_s3 NodeC = 3 \<and>
   children_of exC_s3 NodeC = [NodeB] \<and>
   sum_list (map (N_of exC_s3) (children_of exC_s3 NodeC)) \<le> N_of exC_s3 NodeC"
proof -
  note t = rollouts_visit_counts [of 3 ex_ops ex_agents "141 / 100" NodeC exC_s3]
  have i: "MCTS_init ex_agents (141 / 100) = ex_s0"
    using ex_init by (simp add: MCTS_init_default_def ex_ops_fields)
  have sim: "simulate ex_ops (MCTS_init ex_agents (141 / 100)) n = Some (Inr (- 1))" for n
    unfolding i ex_s0_def by (rule ex_sim)
  have u: "uct_computes ex_ops (int 3)" by (rule ex_uct_computes)
  from t[THEN conjunct2] ex_wfp u sim
  obtain s' where e: "do_rollouts 3 ex_ops (MCTS_init ex_agents (141 / 100)) NodeC = Some (Inr s')"
    by blast
  have r: "do_rollouts 3 ex_ops (MCTS_init ex_agents (141 / 100)) NodeC = Some (Inr exC_s3)"
    unfolding i by (rule exC_rollouts_3)
  from t[THEN conjunct1] r ex_tree_at_C
  have "N_of exC_s3 NodeC = 3"
    "sum_list (map (N_of exC_s3) (children_of exC_s3 NodeC)) \<le> N_of exC_s3 NodeC"
    by simp_all
  with r e ex_wfp sim ex_tree_at_C exC_s3_values(2) ex_uct_computes[of 3] show ?thesis by simp
qed

subsection \<open>C2: backpropagation\<close>

text \<open>
  C2. Backpropagation runs the loop body over the path from its last node (the
  leaf) to its first (the root). For a path that selection returns, every node on
  the path gets its visit count raised by exactly 1 and its cumulative reward
  raised by the reward if the current player of the node's state is \<open>FIRST\<close> and
  lowered by the reward otherwise; the entries of every other node, the children
  map, the agents and the exploration weight are unchanged.
\<close>

theorem backpropagate_updates_path:
  assumes "select ops s0 rt = Some (Inr (path, s1))"
  shows
    "backpropagate ops s path reward = foldl (backpropagate_step ops reward) s (rev path) \<and>
     (\<forall>n. (n \<in> set path \<longrightarrow>
             N (backpropagate ops s path reward) n = Some (N_of s n + 1) \<and>
             Q (backpropagate ops s path reward) n
               = Some (Q_of s n + (if current_player_id ops (state ops n) = FIRST
                                   then reward else - reward))) \<and>
          (n \<notin> set path \<longrightarrow>
             N (backpropagate ops s path reward) n = N s n \<and>
             Q (backpropagate ops s path reward) n = Q s n)) \<and>
     children (backpropagate ops s path reward) = children s \<and>
     agents (backpropagate ops s path reward) = agents s \<and>
     exploration_weight (backpropagate ops s path reward) = exploration_weight s"
proof -
  have d: "distinct path" using assms by (rule select_path)
  have a1: "backpropagate ops s path reward
              = foldl (backpropagate_step ops reward) s (rev path)"
    by (simp add: backpropagate_def)
  have a2: "\<forall>n. (n \<in> set path \<longrightarrow>
             N (backpropagate ops s path reward) n = Some (N_of s n + 1) \<and>
             Q (backpropagate ops s path reward) n
               = Some (Q_of s n + (if current_player_id ops (state ops n) = FIRST
                                   then reward else - reward))) \<and>
          (n \<notin> set path \<longrightarrow>
             N (backpropagate ops s path reward) n = N s n \<and>
             Q (backpropagate ops s path reward) n = Q s n)"
    using backpropagate_inside[OF d, of _ ops s reward] backpropagate_outside[of _ path ops s reward]
    by (simp add: signed_def)
  have a3: "children (backpropagate ops s path reward) = children s \<and>
     agents (backpropagate ops s path reward) = agents s \<and>
     exploration_weight (backpropagate ops s path reward) = exploration_weight s"
    by (simp add: backpropagate_fields)
  show ?thesis by (rule conjI[OF a1 conjI[OF a2 a3]])
qed

theorem backpropagate_updates_path_witness:
  "select ex_ops ex_s1 NodeR = Some (Inr ([NodeR, NodeC], ex_s1)) \<and>
   N (backpropagate ex_ops ex_s1 [NodeR, NodeC] 1) NodeR = Some 2 \<and>
   Q (backpropagate ex_ops ex_s1 [NodeR, NodeC] 1) NodeR = Some 0 \<and>
   N (backpropagate ex_ops ex_s1 [NodeR, NodeC] 1) NodeC = Some 1 \<and>
   Q (backpropagate ex_ops ex_s1 [NodeR, NodeC] 1) NodeC = Some (- 1) \<and>
   N (backpropagate ex_ops ex_s1 [NodeR, NodeC] 1) NodeB = None \<and>
   Q (backpropagate ex_ops ex_s1 [NodeR, NodeC] 1) NodeB = None"
proof -
  have e: "N (backpropagate ex_ops ex_s1 [NodeR, NodeC] 1) NodeR = Some 2 \<and>
   Q (backpropagate ex_ops ex_s1 [NodeR, NodeC] 1) NodeR = Some 0 \<and>
   N (backpropagate ex_ops ex_s1 [NodeR, NodeC] 1) NodeC = Some 1 \<and>
   Q (backpropagate ex_ops ex_s1 [NodeR, NodeC] 1) NodeC = Some (- 1) \<and>
   N (backpropagate ex_ops ex_s1 [NodeR, NodeC] 1) NodeB = None \<and>
   Q (backpropagate ex_ops ex_s1 [NodeR, NodeC] 1) NodeB = None"
    by (simp add: ex_s1_def ex_fields ex_ops_fields backpropagate_def
          backpropagate_step_def dd_get_def)
  show ?thesis
    using backpropagate_updates_path [OF ex_select_s1, of ex_s1 1] ex_select_s1 e by simp
qed

subsection \<open>C3: choose\<close>

text \<open>
  C3, as the claim states it, fails: after one rollout from \<open>NodeR\<close> of the small
  game the node is expanded and none of its children has been visited, and
  \<open>MCTS_choose\<close> returns \<open>NodeB\<close>, a child with zero visits. No float is computed on
  the way: both scores are minus infinity.
\<close>

theorem choose_unvisited_counterexample:
  "do_rollout ex_ops (MCTS_init_default ex_ops ex_agents) NodeR = Some (Inr ex_s1) \<and>
   \<not> is_terminal ex_ops NodeR \<and>
   children ex_s1 NodeR = Some [NodeB, NodeC] \<and>
   map_sum id fst (MCTS_choose ex_ops ex_s1 NodeR) = Inr NodeB \<and>
   N_of ex_s1 NodeB = 0"
  by (simp add: ex_init ex_rollout_1 ex_choose_s1 ex_ops_fields)
     (simp add: ex_s1_def ex_fields N_of_def)

text \<open>
  C3, amended. \<open>MCTS_choose\<close> raises \<^verbatim>\<open>RuntimeError\<close> (no exception of the engine)
  on a terminal node. On a node that is not terminal and not a key of \<open>children\<close>
  it returns the node's \<^verbatim>\<open>find_random_child()\<close> and leaves the instance as it
  is. On an empty children list it raises \<^verbatim>\<open>ValueError\<close>. On a children list that
  is not empty the score of a child is the value \<open>avg_reward\<close> of \<^verbatim>\<open>score\<close>: minus
  infinity for a child with zero visits, else the float that the division
  \<^verbatim>\<open>Q[n] / N[n]\<close> of the two ints returns, or the exception it raises. If the score of
  every child is computed, with \<open>key m\<close> the score of \<open>m\<close>, the child returned is the
  first whose score no other exceeds in the comparison of floats: the scores of
  the children before it in the list differ from its score and are not greater,
  the scores of the children behind it are not greater (two children whose
  quotients are the same float tie, and the earlier one wins); so a child with zero
  visits is returned only if no child of the node has been visited; the reads
  change no value of the tables. If the score of a child raises and the scores of
  the children before it are computed, \<open>MCTS_choose\<close> raises that exception.
\<close>

theorem choose_result:
  "(is_terminal ops node \<longrightarrow> MCTS_choose ops s node = Inl RuntimeError) \<and>
   (\<not> is_terminal ops node \<and> children s node = None
      \<longrightarrow> MCTS_choose ops s node = Inr (find_random_child ops node, s)) \<and>
   (\<not> is_terminal ops node \<and> children s node = Some []
      \<longrightarrow> MCTS_choose ops s node = Inl ValueError) \<and>
   map_sum id fst (score ops s m) = avg_reward ops s m \<and>
   (\<not> is_terminal ops node \<and> children s node = Some cs \<and> cs \<noteq> [] \<and>
    (\<forall>m\<in>set cs. avg_reward ops s m = Inr (key m))
      \<longrightarrow> (\<exists>n s' pre post.
             MCTS_choose ops s node = Inr (n, s') \<and> same_view s s' \<and>
             cs = pre @ n # post \<and>
             (\<forall>m\<in>set pre. key m \<noteq> key n \<and> \<not> key n < key m) \<and>
             (\<forall>m\<in>set post. \<not> key n < key m) \<and>
             (\<forall>m\<in>set cs. \<not> key n < key m) \<and>
             ((\<exists>m\<in>set cs. N_of s m \<noteq> 0) \<longrightarrow> N_of s n \<noteq> 0))) \<and>
   (\<not> is_terminal ops node \<and> children s node = Some (pre' @ m # post') \<and>
    (\<forall>x\<in>set pre'. \<exists>v. avg_reward ops s x = Inr v) \<and> avg_reward ops s m = Inl e
      \<longrightarrow> MCTS_choose ops s node = Inl e)"
proof -
  have a1: "is_terminal ops node \<longrightarrow> MCTS_choose ops s node = Inl RuntimeError"
    by (simp add: choose_terminal)
  have a2: "\<not> is_terminal ops node \<and> children s node = None
      \<longrightarrow> MCTS_choose ops s node = Inr (find_random_child ops node, s)"
    by (simp add: choose_unexpanded)
  have a3: "\<not> is_terminal ops node \<and> children s node = Some []
      \<longrightarrow> MCTS_choose ops s node = Inl ValueError"
    by (simp add: choose_empty)
  have a4: "map_sum id fst (score ops s m) = avg_reward ops s m" by (rule score_as_val)
  have a5: "\<not> is_terminal ops node \<and> children s node = Some cs \<and> cs \<noteq> [] \<and>
    (\<forall>m\<in>set cs. avg_reward ops s m = Inr (key m))
      \<longrightarrow> (\<exists>n s' pre post.
             MCTS_choose ops s node = Inr (n, s') \<and> same_view s s' \<and>
             cs = pre @ n # post \<and>
             (\<forall>m\<in>set pre. key m \<noteq> key n \<and> \<not> key n < key m) \<and>
             (\<forall>m\<in>set post. \<not> key n < key m) \<and>
             (\<forall>m\<in>set cs. \<not> key n < key m) \<and>
             ((\<exists>m\<in>set cs. N_of s m \<noteq> 0) \<longrightarrow> N_of s n \<noteq> 0))"
  proof (intro impI, elim conjE)
    assume h: "\<not> is_terminal ops node" "children s node = Some cs" "cs \<noteq> []"
      and k: "\<forall>m\<in>set cs. avg_reward ops s m = Inr (key m)"
    have k': "avg_reward ops s m = Inr (key m)" if "m \<in> set cs" for m using k that by simp
    from choose_expanded[OF h k'] obtain n s' pre post where
      c: "MCTS_choose ops s node = Inr (n, s')" "same_view s s'" "cs = pre @ n # post"
         "\<forall>m\<in>set pre. key m \<noteq> key n \<and> \<not> key n < key m"
         "\<forall>m\<in>set post. \<not> key n < key m" by blast
    have all: "\<forall>m\<in>set cs. \<not> key n < key m"
      using c(3,4,5) by auto
    have "(\<exists>m\<in>set cs. N_of s m \<noteq> 0) \<longrightarrow> N_of s n \<noteq> 0"
    proof
      assume "\<exists>m\<in>set cs. N_of s m \<noteq> 0"
      then obtain m where m: "m \<in> set cs" "N_of s m \<noteq> 0" by blast
      have "key m \<noteq> None" using avg_reward_unvisited[OF k'[OF m(1)]] m(2) by simp
      then obtain x where x: "key m = Some x" by auto
      show "N_of s n \<noteq> 0"
      proof
        assume "N_of s n = 0"
        moreover have "n \<in> set cs" using c(3) by simp
        ultimately have "key n = None" using avg_reward_unvisited[OF k'[of n]] by simp
        then have "key n < key m" using x by (simp add: less_option_def)
        then show False using all m(1) by simp
      qed
    qed
    with c all show "\<exists>n s' pre post.
             MCTS_choose ops s node = Inr (n, s') \<and> same_view s s' \<and>
             cs = pre @ n # post \<and>
             (\<forall>m\<in>set pre. key m \<noteq> key n \<and> \<not> key n < key m) \<and>
             (\<forall>m\<in>set post. \<not> key n < key m) \<and>
             (\<forall>m\<in>set cs. \<not> key n < key m) \<and>
             ((\<exists>m\<in>set cs. N_of s m \<noteq> 0) \<longrightarrow> N_of s n \<noteq> 0)" by blast
  qed
  have a6: "\<not> is_terminal ops node \<and> children s node = Some (pre' @ m # post') \<and>
    (\<forall>x\<in>set pre'. \<exists>v. avg_reward ops s x = Inr v) \<and> avg_reward ops s m = Inl e
      \<longrightarrow> MCTS_choose ops s node = Inl e"
  proof (intro impI, elim conjE)
    assume h: "\<not> is_terminal ops node" "children s node = Some (pre' @ m # post')"
      "avg_reward ops s m = Inl e" and p: "\<forall>x\<in>set pre'. \<exists>v. avg_reward ops s x = Inr v"
    have "\<exists>v. avg_reward ops s x = Inr v" if "x \<in> set pre'" for x using p that by simp
    with h show "MCTS_choose ops s node = Inl e" by (rule choose_raises)
  qed
  show ?thesis by (rule conjI[OF a1 conjI[OF a2 conjI[OF a3 conjI[OF a4 conjI[OF a5 a6]]]]])
qed

theorem choose_result_witness:
  "is_terminal ex_ops NodeB \<and> MCTS_choose ex_ops ex_s3 NodeB = Inl RuntimeError \<and>
   \<not> is_terminal ex_ops NodeR \<and> children ex_s0 NodeR = None \<and>
   MCTS_choose ex_ops ex_s0 NodeR = Inr (NodeB, ex_s0) \<and>
   children ex_s3 NodeR = Some [NodeB, NodeC] \<and>
   avg_reward ex_ops ex_s3 NodeB = Inr (Some (- 1)) \<and>
   avg_reward ex_ops ex_s3 NodeC = Inr (Some 1) \<and>
   MCTS_choose ex_ops ex_s3 NodeR = Inr (NodeC, ex_s3) \<and>
   N_of ex_s3 NodeB = 1 \<and> N_of ex_s3 NodeC \<noteq> 0 \<and>
   \<not> is_terminal ovf_ops NodeR \<and> children ex_ovf NodeR = Some [NodeB, NodeC] \<and>
   avg_reward ovf_ops ex_ovf NodeB = Inl OverflowError \<and>
   MCTS_choose ovf_ops ex_ovf NodeR = Inl OverflowError"
proof -
  note c = choose_result [of ex_ops NodeB ex_s3 NodeB "[]" "\<lambda>m. None" "[]" "[]" ValueError]
  note d = choose_result [of ex_ops NodeR ex_s0 NodeB "[]" "\<lambda>m. None" "[]" "[]" ValueError]
  note e = choose_result [of ex_ops NodeR ex_s3 NodeB "[NodeB, NodeC]"
                             "\<lambda>m. if m = NodeB then Some (- 1) else Some 1" "[]" "[]" ValueError]
  note f = choose_result [of ovf_ops NodeR ex_ovf NodeB "[]" "\<lambda>m. None" "[]" "[NodeC]"
                             OverflowError]
  have tB: "is_terminal ex_ops NodeB" and tR: "\<not> is_terminal ex_ops NodeR"
    by (simp_all add: ex_ops_fields)
  have 1: "MCTS_choose ex_ops ex_s3 NodeB = Inl RuntimeError"
    using c[THEN conjunct1] tB by simp
  have 2: "MCTS_choose ex_ops ex_s0 NodeR = Inr (NodeB, ex_s0)"
    using d[THEN conjunct2, THEN conjunct1] tR ex_s3_values(2) by (simp add: ex_ops_fields)
  have k: "\<forall>m\<in>set [NodeB, NodeC].
             avg_reward ex_ops ex_s3 m = Inr (if m = NodeB then Some (- 1) else Some 1)"
    using ex_s3_values(5,6) by simp
  from e[THEN conjunct2, THEN conjunct2, THEN conjunct2, THEN conjunct2, THEN conjunct1]
       tR ex_s3_values(1) k
  obtain n s' where 3: "MCTS_choose ex_ops ex_s3 NodeR = Inr (n, s')"
    and 4: "(\<exists>m\<in>set [NodeB, NodeC]. N_of ex_s3 m \<noteq> 0) \<longrightarrow> N_of ex_s3 n \<noteq> 0"
    by blast
  have "n = NodeC" using 3 ex_choose_s3 by simp
  then have 5: "N_of ex_s3 NodeC \<noteq> 0" using 4 ex_s3_values(3) by simp
  have 6: "MCTS_choose ovf_ops ex_ovf NodeR = Inl OverflowError"
    using f[THEN conjunct2, THEN conjunct2, THEN conjunct2, THEN conjunct2, THEN conjunct2]
          ex_ovf_values by simp
  show ?thesis using tB tR 1 2 5 6 ex_choose_s3 ex_s3_values ex_ovf_values by simp
qed

subsection \<open>C4: one step of the descent\<close>

text \<open>
  C4, as the claim states it, fails at a node that is not terminal and is expanded
  with an empty children list (all of its children, there being none, are keys):
  the descent stops there, and \<open>uct_select\<close> at that node has no child to return.
  In the game \<open>stuck_ops\<close> one rollout from a fresh instance leads to such an
  instance. No float is computed on the way.
\<close>

theorem select_childless_counterexample:
  "do_rollout stuck_ops (MCTS_init_default stuck_ops stuck_agents) () = Some (Inr stuck_state) \<and>
   \<not> is_terminal stuck_ops () \<and>
   children stuck_state () = Some [] \<and>
   list_all (\<lambda>c. children stuck_state c \<noteq> None) [] \<and>
   select stuck_ops stuck_state () = Some (Inr ([()], stuck_state)) \<and>
   uct_select stuck_ops stuck_state () = Inl ValueError"
  by (simp add: stuck_rollout stuck_fields)
     (simp add: stuck_state_def select_def select_loop_unfold select_stop_def uct_select_def
        getC_def getN_def dd_get_def stuck_fields)

text \<open>
  C4, amended. At a node that is not a key of \<open>children\<close>, or is expanded with an
  empty children list, or is terminal, the descent stops with the node as the
  leaf. At a node that is not terminal and has a child that is not a key, the last
  such child of the list is appended and the descent stops with it as the leaf.
  At a node that is not terminal and is expanded with a children list that is not
  empty and has only keys, the descent calls \<open>uct_select\<close> and goes on from the
  child it returns, or raises what it raises. The score of a child \<open>m\<close> of the node
  is the value \<open>uct_score\<close> of \<^verbatim>\<open>uct\<close>: \<^verbatim>\<open>Q[m]/N[m] + c * sqrt(log(N[node]) / N[m])\<close>
  as the float operations compute it, with \<open>c\<close> the exploration weight of the
  instance, or the exception one of them raises. If the score of every child is
  computed, with \<open>key m\<close> the score of \<open>m\<close>, \<open>uct_select\<close> returns the first child
  whose score no other exceeds in the comparison of floats (the scores of the
  children before it differ from its score and are not greater, the scores of the
  children behind it are not greater; two children whose scores are the same float
  tie, and the earlier one wins) and changes no value of the tables. If the score
  of a child raises and the scores of the children before it are computed,
  \<open>uct_select\<close> raises that exception.
\<close>

theorem select_step:
  "(children s node = None \<or> children s node = Some [] \<or> is_terminal ops node
      \<longrightarrow> select_loop ops s node path = Some (Inr (path @ [node], s))) \<and>
   (\<not> is_terminal ops node \<and> children s node = Some cs \<and> cs \<noteq> [] \<and>
    filter (\<lambda>c. children s c = None) cs \<noteq> []
      \<longrightarrow> select_loop ops s node path
            = Some (Inr (path @ [node, last (filter (\<lambda>c. children s c = None) cs)], s)) \<and>
          last (filter (\<lambda>c. children s c = None) cs) \<in> set cs \<and>
          children s (last (filter (\<lambda>c. children s c = None) cs)) = None) \<and>
   (\<not> is_terminal ops node \<and> children s node = Some cs \<and> cs \<noteq> [] \<and>
    list_all (\<lambda>c. children s c \<noteq> None) cs
      \<longrightarrow> select_loop ops s node path =
            (case uct_select ops s node of
               Inl e \<Rightarrow> Some (Inl e)
             | Inr (n, s1) \<Rightarrow> select_loop ops s1 n (path @ [node]))) \<and>
   (0 < N_of s node \<and> float_log ops (N_of s node) = Inr l
      \<longrightarrow> map_sum id fst (uct ops l s m) = uct_score ops s node m) \<and>
   (children s node = Some cs \<and> cs \<noteq> [] \<and> list_all (\<lambda>c. children s c \<noteq> None) cs \<and>
    (\<forall>m\<in>set cs. uct_score ops s node m = Inr (key m))
      \<longrightarrow> (\<exists>n s1 pre post.
             uct_select ops s node = Inr (n, s1) \<and> same_view s s1 \<and>
             cs = pre @ n # post \<and>
             (\<forall>m\<in>set pre. key m \<noteq> key n \<and> \<not> key n < key m) \<and>
             (\<forall>m\<in>set post. \<not> key n < key m) \<and>
             (\<forall>m\<in>set cs. \<not> key n < key m))) \<and>
   (children s node = Some (pre' @ m # post') \<and>
    list_all (\<lambda>c. children s c \<noteq> None) (pre' @ m # post') \<and>
    (\<forall>x\<in>set pre'. \<exists>v. uct_score ops s node x = Inr v) \<and> uct_score ops s node m = Inl e
      \<longrightarrow> uct_select ops s node = Inl e)"
proof -
  have a1: "children s node = None \<or> children s node = Some [] \<or> is_terminal ops node
      \<longrightarrow> select_loop ops s node path = Some (Inr (path @ [node], s))"
    by (subst select_loop.simps) (auto split: option.splits)
  have a2: "\<not> is_terminal ops node \<and> children s node = Some cs \<and> cs \<noteq> [] \<and>
    filter (\<lambda>c. children s c = None) cs \<noteq> []
      \<longrightarrow> select_loop ops s node path
            = Some (Inr (path @ [node, last (filter (\<lambda>c. children s c = None) cs)], s)) \<and>
          last (filter (\<lambda>c. children s c = None) cs) \<in> set cs \<and>
          children s (last (filter (\<lambda>c. children s c = None) cs)) = None"
  proof (intro impI, elim conjE)
    assume h: "\<not> is_terminal ops node" "children s node = Some cs" "cs \<noteq> []"
      "filter (\<lambda>c. children s c = None) cs \<noteq> []"
    have "last (filter (\<lambda>c. children s c = None) cs) \<in> set (filter (\<lambda>c. children s c = None) cs)"
      using h(4) by (rule last_in_set)
    then have m: "last (filter (\<lambda>c. children s c = None) cs) \<in> set cs"
      "children s (last (filter (\<lambda>c. children s c = None) cs)) = None" by simp_all
    have "select_loop ops s node path
            = Some (Inr (path @ [node, last (filter (\<lambda>c. children s c = None) cs)], s))"
      using h by (subst select_loop.simps) simp
    with m show "select_loop ops s node path
            = Some (Inr (path @ [node, last (filter (\<lambda>c. children s c = None) cs)], s)) \<and>
          last (filter (\<lambda>c. children s c = None) cs) \<in> set cs \<and>
          children s (last (filter (\<lambda>c. children s c = None) cs)) = None" by simp
  qed
  have a3: "\<not> is_terminal ops node \<and> children s node = Some cs \<and> cs \<noteq> [] \<and>
    list_all (\<lambda>c. children s c \<noteq> None) cs
      \<longrightarrow> select_loop ops s node path =
            (case uct_select ops s node of
               Inl e \<Rightarrow> Some (Inl e)
             | Inr (n, s1) \<Rightarrow> select_loop ops s1 n (path @ [node]))"
  proof (intro impI, elim conjE)
    assume h: "\<not> is_terminal ops node" "children s node = Some cs" "cs \<noteq> []"
      "list_all (\<lambda>c. children s c \<noteq> None) cs"
    have f: "filter (\<lambda>item. children s item = None) cs = []"
      using h(4) by (simp add: filter_empty_list_all)
    show "select_loop ops s node path =
            (case uct_select ops s node of
               Inl e \<Rightarrow> Some (Inl e)
             | Inr (n, s1) \<Rightarrow> select_loop ops s1 n (path @ [node]))"
      using h(2,3,1) f by (rule select_loop_reaches_uct)
  qed
  have a4: "0 < N_of s node \<and> float_log ops (N_of s node) = Inr l
      \<longrightarrow> map_sum id fst (uct ops l s m) = uct_score ops s node m"
    using uct_as_val[of ops l s m] by (simp add: uct_score_def)
  have a5: "children s node = Some cs \<and> cs \<noteq> [] \<and> list_all (\<lambda>c. children s c \<noteq> None) cs \<and>
    (\<forall>m\<in>set cs. uct_score ops s node m = Inr (key m))
      \<longrightarrow> (\<exists>n s1 pre post.
             uct_select ops s node = Inr (n, s1) \<and> same_view s s1 \<and>
             cs = pre @ n # post \<and>
             (\<forall>m\<in>set pre. key m \<noteq> key n \<and> \<not> key n < key m) \<and>
             (\<forall>m\<in>set post. \<not> key n < key m) \<and>
             (\<forall>m\<in>set cs. \<not> key n < key m))"
  proof (intro impI, elim conjE)
    assume h: "children s node = Some cs" "cs \<noteq> []" "list_all (\<lambda>c. children s c \<noteq> None) cs"
      and k: "\<forall>m\<in>set cs. uct_score ops s node m = Inr (key m)"
    have k': "uct_score ops s node m = Inr (key m)" if "m \<in> set cs" for m using k that by simp
    from uct_select_descend[OF h k'] obtain n s1 pre post where
      u: "uct_select ops s node = Inr (n, s1)" "same_view s s1" "cs = pre @ n # post"
         "\<forall>m\<in>set pre. key m \<noteq> key n \<and> \<not> key n < key m"
         "\<forall>m\<in>set post. \<not> key n < key m" by blast
    have "\<forall>m\<in>set cs. \<not> key n < key m" using u(3,4,5) by auto
    with u show "\<exists>n s1 pre post.
             uct_select ops s node = Inr (n, s1) \<and> same_view s s1 \<and>
             cs = pre @ n # post \<and>
             (\<forall>m\<in>set pre. key m \<noteq> key n \<and> \<not> key n < key m) \<and>
             (\<forall>m\<in>set post. \<not> key n < key m) \<and>
             (\<forall>m\<in>set cs. \<not> key n < key m)" by blast
  qed
  have a6: "children s node = Some (pre' @ m # post') \<and>
    list_all (\<lambda>c. children s c \<noteq> None) (pre' @ m # post') \<and>
    (\<forall>x\<in>set pre'. \<exists>v. uct_score ops s node x = Inr v) \<and> uct_score ops s node m = Inl e
      \<longrightarrow> uct_select ops s node = Inl e"
  proof (intro impI, elim conjE)
    assume h: "children s node = Some (pre' @ m # post')"
      "list_all (\<lambda>c. children s c \<noteq> None) (pre' @ m # post')"
      "uct_score ops s node m = Inl e"
      and p: "\<forall>x\<in>set pre'. \<exists>v. uct_score ops s node x = Inr v"
    have "\<exists>v. uct_score ops s node x = Inr v" if "x \<in> set pre'" for x using p that by simp
    with h show "uct_select ops s node = Inl e" by (rule uct_select_raises)
  qed
  show ?thesis
    by (rule conjI[OF a1 conjI[OF a2 conjI[OF a3 conjI[OF a4 conjI[OF a5 a6]]]]])
qed

theorem select_step_witness:
  "children ex_s0 NodeR = None \<and> select ex_ops ex_s0 NodeR = Some (Inr ([NodeR], ex_s0)) \<and>
   \<not> is_terminal ex_ops NodeR \<and> children ex_s1 NodeR = Some [NodeB, NodeC] \<and>
   filter (\<lambda>c. children ex_s1 c = None) [NodeB, NodeC] = [NodeB, NodeC] \<and>
   select ex_ops ex_s1 NodeR = Some (Inr ([NodeR, NodeC], ex_s1)) \<and>
   children ex_s3 NodeR = Some [NodeB, NodeC] \<and>
   list_all (\<lambda>c. children ex_s3 c \<noteq> None) [NodeB, NodeC] \<and>
   uct_score ex_ops ex_s3 NodeR NodeB = Inr (- 1 + 141 / 100 * sqrt (ln 3)) \<and>
   uct_score ex_ops ex_s3 NodeR NodeC = Inr (1 + 141 / 100 * sqrt (ln 3)) \<and>
   uct_select ex_ops ex_s3 NodeR = Inr (NodeC, ex_s3) \<and>
   select ex_ops ex_s3 NodeR = Some (Inr ([NodeR, NodeC, NodeB], ex_s3)) \<and>
   children ex_zero NodeR = Some [NodeB] \<and>
   list_all (\<lambda>c. children ex_zero c \<noteq> None) [NodeB] \<and>
   uct_score ex_ops ex_zero NodeR NodeB = Inl ZeroDivisionError \<and>
   uct_select ex_ops ex_zero NodeR = Inl ZeroDivisionError"
proof -
  note t = select_step [of ex_s3 NodeR ex_ops "[]" "[NodeB, NodeC]" "ln 3" NodeB
             "\<lambda>m. if m = NodeB then - 1 + 141 / 100 * sqrt (ln 3) else 1 + 141 / 100 * sqrt (ln 3)"
             "[]" "[]" ValueError]
  note z = select_step [of ex_zero NodeR ex_ops "[]" "[NodeB]" "ln 1" NodeB "\<lambda>m. 0"
             "[]" "[]" ZeroDivisionError]
  have h: "\<not> is_terminal ex_ops NodeR" "children ex_s3 NodeR = Some [NodeB, NodeC]"
    "list_all (\<lambda>c. children ex_s3 c \<noteq> None) [NodeB, NodeC]"
    "children ex_s0 NodeR = None" "children ex_s1 NodeR = Some [NodeB, NodeC]"
    "filter (\<lambda>c. children ex_s1 c = None) [NodeB, NodeC] = [NodeB, NodeC]"
    by (simp_all add: ex_states ex_fields ex_ops_fields)
  have k: "\<forall>m\<in>set [NodeB, NodeC]. uct_score ex_ops ex_s3 NodeR m
             = Inr (if m = NodeB then - 1 + 141 / 100 * sqrt (ln 3)
                    else 1 + 141 / 100 * sqrt (ln 3))"
    using ex_uct_scores_s3 by simp
  from t[THEN conjunct2, THEN conjunct2, THEN conjunct2, THEN conjunct2, THEN conjunct1] h(2,3) k
  obtain n s1 where u: "uct_select ex_ops ex_s3 NodeR = Inr (n, s1)" by blast
  have 1: "uct_select ex_ops ex_zero NodeR = Inl ZeroDivisionError"
    using z[THEN conjunct2, THEN conjunct2, THEN conjunct2, THEN conjunct2, THEN conjunct2]
          ex_zero_values by simp
  show ?thesis
    using h u 1 ex_uct_select_s3 ex_uct_scores_s3 ex_zero_values ex_select_s3 ex_select_s0
          ex_select_s1 by simp
qed

subsection \<open>C5: simulation\<close>

text \<open>
  C5. A simulation from a leaf returns a reward exactly when the playout from the
  clone of the leaf's state (the agent of the current player moves, the move is
  applied, while the state has no winner) reaches a state with a winner after
  some number of moves; the reward is 1 when that winner is \<open>FIRST\<close> and -1
  otherwise, so a win of \<open>SECOND\<close> gives -1.
\<close>

theorem simulate_playout:
  "(simulate ops s leaf = Some (Inr r) \<longleftrightarrow>
      (\<exists>k final. plays_to k ops (agents s) (clone ops (state ops leaf)) final \<and>
         r = (if winner ops final = Some FIRST then 1 else - 1))) \<and>
   (plays_to k ops (agents s) (clone ops (state ops leaf)) final \<and> winner ops final = Some FIRST
      \<longrightarrow> simulate ops s leaf = Some (Inr 1)) \<and>
   (plays_to k ops (agents s) (clone ops (state ops leaf)) final \<and> winner ops final \<noteq> Some FIRST
      \<longrightarrow> simulate ops s leaf = Some (Inr (- 1)))"
proof -
  have a1: "simulate ops s leaf = Some (Inr r) \<longleftrightarrow>
      (\<exists>k final. plays_to k ops (agents s) (clone ops (state ops leaf)) final \<and>
         r = (if winner ops final = Some FIRST then 1 else - 1))"
    by (rule simulate_iff)
  have a2: "plays_to k ops (agents s) (clone ops (state ops leaf)) final \<and>
      winner ops final = Some FIRST \<longrightarrow> simulate ops s leaf = Some (Inr 1)"
    using simulate_iff[of ops s leaf 1] by auto
  have a3: "plays_to k ops (agents s) (clone ops (state ops leaf)) final \<and>
      winner ops final \<noteq> Some FIRST \<longrightarrow> simulate ops s leaf = Some (Inr (- 1))"
    using simulate_iff[of ops s leaf "- 1"] by auto
  show ?thesis by (rule conjI[OF a1 conjI[OF a2 a3]])
qed

theorem simulate_playout_witness:
  "plays_to (Suc 0) ex_ops (agents ex_s0) (clone ex_ops (state ex_ops NodeC)) NodeB \<and>
   winner ex_ops NodeB = Some SECOND \<and>
   simulate ex_ops ex_s0 NodeC = Some (Inr (- 1))"
  using simulate_playout [of ex_ops ex_s0 NodeC "- 1" "Suc 0" NodeB] ex_plays_to
  by (simp add: ex_ops_fields ex_s0_def ex_fields)

subsection \<open>C6: the assertion of \_uct\_select\<close>

text \<open>
  C6. The loop of \<open>select_loop\<close> calls \<open>uct_select\<close> at a node only when the node
  is expanded with a children list that is not empty, is not terminal and has no
  child outside the keys of \<open>children\<close>; then every child is a key and the
  assertion holds. So no selection, no rollout and no sequence of rollouts, from
  any instance, ends in \<^verbatim>\<open>AssertionError\<close>. (The assertion itself is not idle:
  \<open>uct_select\<close> raises it exactly when a listed child is not a key.)
\<close>

theorem uct_assertion_never_fails:
  "select ops s node \<noteq> Some (Inl AssertionError) \<and>
   do_rollout ops s node \<noteq> Some (Inl AssertionError) \<and>
   do_rollouts k ops s node \<noteq> Some (Inl AssertionError) \<and>
   (children s node = Some cs \<and> cs \<noteq> [] \<and> \<not> is_terminal ops node \<and>
    filter (\<lambda>item. children s item = None) cs = []
      \<longrightarrow> select_loop ops s node path =
            (case uct_select ops s node of
               Inl e \<Rightarrow> Some (Inl e)
             | Inr (n, s1) \<Rightarrow> select_loop ops s1 n (path @ [node])) \<and>
          list_all (\<lambda>n. children s n \<noteq> None) cs \<and>
          uct_select ops s node \<noteq> Inl AssertionError) \<and>
   (children s node = Some cs
      \<longrightarrow> (uct_select ops s node = Inl AssertionError
            \<longleftrightarrow> \<not> list_all (\<lambda>n. children s n \<noteq> None) cs))"
proof -
  have a1: "select ops s node \<noteq> Some (Inl AssertionError)" by (rule select_no_assert)
  have a2: "do_rollout ops s node \<noteq> Some (Inl AssertionError)" by (rule do_rollout_no_assert)
  have a3: "do_rollouts k ops s node \<noteq> Some (Inl AssertionError)" by (rule do_rollouts_no_assert)
  have a5: "children s node = Some cs
      \<longrightarrow> (uct_select ops s node = Inl AssertionError
            \<longleftrightarrow> \<not> list_all (\<lambda>n. children s n \<noteq> None) cs)"
    using uct_select_assert[of ops s node] by auto
  have a4: "children s node = Some cs \<and> cs \<noteq> [] \<and> \<not> is_terminal ops node \<and>
    filter (\<lambda>item. children s item = None) cs = []
      \<longrightarrow> select_loop ops s node path =
            (case uct_select ops s node of
               Inl e \<Rightarrow> Some (Inl e)
             | Inr (n, s1) \<Rightarrow> select_loop ops s1 n (path @ [node])) \<and>
          list_all (\<lambda>n. children s n \<noteq> None) cs \<and>
          uct_select ops s node \<noteq> Inl AssertionError"
  proof (intro impI, elim conjE)
    assume h: "children s node = Some cs" "cs \<noteq> []" "\<not> is_terminal ops node"
      "filter (\<lambda>item. children s item = None) cs = []"
    have l: "list_all (\<lambda>n. children s n \<noteq> None) cs"
      using h(4) by (simp add: filter_empty_list_all)
    then have "uct_select ops s node \<noteq> Inl AssertionError" using a5 h(1) by simp
    with l select_loop_reaches_uct[OF h]
    show "select_loop ops s node path =
            (case uct_select ops s node of
               Inl e \<Rightarrow> Some (Inl e)
             | Inr (n, s1) \<Rightarrow> select_loop ops s1 n (path @ [node])) \<and>
          list_all (\<lambda>n. children s n \<noteq> None) cs \<and>
          uct_select ops s node \<noteq> Inl AssertionError" by simp
  qed
  show ?thesis by (rule conjI[OF a1 conjI[OF a2 conjI[OF a3 conjI[OF a4 a5]]]])
qed

theorem uct_assertion_never_fails_witness:
  "children ex_s3 NodeR = Some [NodeB, NodeC] \<and> \<not> is_terminal ex_ops NodeR \<and>
   filter (\<lambda>item. children ex_s3 item = None) [NodeB, NodeC] = [] \<and>
   list_all (\<lambda>n. children ex_s3 n \<noteq> None) [NodeB, NodeC] \<and>
   uct_select ex_ops ex_s3 NodeR = Inr (NodeC, ex_s3) \<and>
   do_rollout ex_ops ex_s3 NodeR = Some (Inr ex_s4) \<and>
   children ex_s1 NodeR = Some [NodeB, NodeC] \<and>
   \<not> list_all (\<lambda>n. children ex_s1 n \<noteq> None) [NodeB, NodeC] \<and>
   uct_select ex_ops ex_s1 NodeR = Inl AssertionError"
  using uct_assertion_never_fails [of ex_ops ex_s3 NodeR 1 "[NodeB, NodeC]" "[]"]
        uct_assertion_never_fails [of ex_ops ex_s1 NodeR 1 "[NodeB, NodeC]" "[]"]
        ex_uct_select_s3 ex_uct_select_s1 ex_rollout_4
  by (simp add: ex_states ex_fields ex_ops_fields)

subsection \<open>C7: expansion is idempotent\<close>

text \<open>
  C7. If the node is a key of \<open>children\<close>, \<open>expand\<close> returns the instance unchanged;
  otherwise it stores the node's \<^verbatim>\<open>find_children()\<close> under the node and changes
  nothing else; expanding twice in a row is expanding once.
\<close>

theorem expand_idempotent:
  "(children s node \<noteq> None \<longrightarrow> expand ops s node = s) \<and>
   (children s node = None \<longrightarrow>
      expand ops s node = s\<lparr>children := (children s)(node \<mapsto> find_children ops node)\<rparr> \<and>
      Q (expand ops s node) = Q s \<and> N (expand ops s node) = N s) \<and>
   expand ops (expand ops s node) node = expand ops s node"
  by (simp add: expand_def split: option.splits)

theorem expand_idempotent_witness:
  "children ex_s0 NodeR = None \<and>
   expand ex_ops ex_s0 NodeR = ex_state Map.empty Map.empty [NodeR \<mapsto> [NodeB, NodeC]] \<and>
   children (expand ex_ops ex_s0 NodeR) NodeR \<noteq> None \<and>
   expand ex_ops (expand ex_ops ex_s0 NodeR) NodeR = expand ex_ops ex_s0 NodeR"
  using expand_idempotent [of ex_s0 NodeR ex_ops]
        expand_idempotent [of "expand ex_ops ex_s0 NodeR" NodeR ex_ops]
  by (simp add: ex_s0_def ex_fields ex_ops_fields)

subsection \<open>C8: the tables belong to the instance\<close>

text \<open>
  C8. The constructor gives an instance three dictionaries that are new and empty:
  their references are the next free ones of the store, no dictionary that existed
  is changed, and the new instance reads as \<open>MCTS_init\<close>. For a caller that has
  created its instances by the constructor and has called \<^verbatim>\<open>do_rollout\<close> and \<^verbatim>\<open>choose\<close>
  on them in any order (the program \<open>prog\<close>), two instances at different positions
  have no dictionary in common, and every sequence of \<^verbatim>\<open>do_rollout\<close> and \<^verbatim>\<open>choose\<close>
  calls on one of them leaves the three tables of the other as they are: whether a
  call returns or raises, and however far a call that does not return has run. The
  methods on the store are those of the first embedding: on an instance whose \<open>Q\<close>
  and \<open>N\<close> are two dictionaries, a call of \<^verbatim>\<open>do_rollout\<close> that returns or raises and
  every call of \<^verbatim>\<open>choose\<close> return what \<open>do_rollout\<close> and \<open>MCTS_choose\<close> return on the
  view of the instance. (That the instances come from the constructor matters:
  \<open>shared_dictionary_interferes\<close> shows two instances with a dictionary in common,
  where a rollout on one changes a table of the other.)
\<close>

theorem instances_do_not_share:
  "(MCTS_new (h0 :: 'n store) (ags :: ('g \<Rightarrow> 'a) list) (w :: 'f) = (new, h1)
      \<longrightarrow> tables h1 new = (Map.empty, Map.empty, Map.empty) \<and>
          view h1 new = MCTS_init ags w \<and>
          self_Q new = int_next h0 \<and> self_N new = Suc (int_next h0) \<and>
          self_children new = list_next h0 \<and>
          (\<forall>r<int_next h0. int_dicts h1 r = int_dicts h0 r) \<and>
          (\<forall>r<list_next h0. list_dicts h1 r = list_dicts h0 r)) \<and>
   (exec fuel (ops :: ('n, 'g, 'a, 'f::order) iface) (empty_store, []) prog = (h, vars) \<and>
    i < length vars \<and> j < length vars \<and> i \<noteq> j \<and>
    list_all (calls_instance i) calls \<and> exec fuel' ops (h, vars) calls = (h', vars')
      \<longrightarrow> separate (vars ! i) (vars ! j) \<and> vars' = vars \<and>
          tables h' (vars ! j) = tables h (vars ! j)) \<and>
   (self_Q self \<noteq> self_N self \<and> do_rollout_on fuel ops self hs node = (Some r, hs')
      \<longrightarrow> do_rollout ops (view hs self) node
            = Some (case r of Inl e \<Rightarrow> Inl e | Inr u \<Rightarrow> Inr (view hs' self))) \<and>
   (self_Q self \<noteq> self_N self
      \<longrightarrow> MCTS_choose ops (view hs self) node = lift_on self (choose_on ops self hs node))"
proof -
  have a1: "MCTS_new h0 ags w = (new, h1)
      \<longrightarrow> tables h1 new = (Map.empty, Map.empty, Map.empty) \<and>
          view h1 new = MCTS_init ags w \<and>
          self_Q new = int_next h0 \<and> self_N new = Suc (int_next h0) \<and>
          self_children new = list_next h0 \<and>
          (\<forall>r<int_next h0. int_dicts h1 r = int_dicts h0 r) \<and>
          (\<forall>r<list_next h0. list_dicts h1 r = list_dicts h0 r)"
  proof
    assume n: "MCTS_new h0 ags w = (new, h1)"
    note f = MCTS_new_fields[OF n]
    have t: "tables h1 new = (Map.empty, Map.empty, Map.empty)" by (rule f(8))
    then have "view h1 new = MCTS_init ags w"
      by (simp add: view_def MCTS_init_def tables_def f(4,5))
    with t f show "tables h1 new = (Map.empty, Map.empty, Map.empty) \<and>
          view h1 new = MCTS_init ags w \<and>
          self_Q new = int_next h0 \<and> self_N new = Suc (int_next h0) \<and>
          self_children new = list_next h0 \<and>
          (\<forall>r<int_next h0. int_dicts h1 r = int_dicts h0 r) \<and>
          (\<forall>r<list_next h0. list_dicts h1 r = list_dicts h0 r)" by simp
  qed
  have a2: "exec fuel ops (empty_store, []) prog = (h, vars) \<and>
    i < length vars \<and> j < length vars \<and> i \<noteq> j \<and>
    list_all (calls_instance i) calls \<and> exec fuel' ops (h, vars) calls = (h', vars')
      \<longrightarrow> separate (vars ! i) (vars ! j) \<and> vars' = vars \<and>
          tables h' (vars ! j) = tables h (vars ! j)"
  proof (intro impI, elim conjE)
    assume p: "exec fuel ops (empty_store, []) prog = (h, vars)"
      and ij: "i < length vars" "j < length vars" "i \<noteq> j"
      and c: "list_all (calls_instance i) calls"
      and e: "exec fuel' ops (h, vars) calls = (h', vars')"
    have ok: "caller_ok (h, vars)" using caller_ok_empty p by (rule exec_ok)
    then have s: "separate (vars ! i) (vars ! j)" using ij by (simp add: caller_ok_def)
    from exec_calls_frame[OF ok c e ij(2,3)] s
    show "separate (vars ! i) (vars ! j) \<and> vars' = vars \<and>
          tables h' (vars ! j) = tables h (vars ! j)" by simp
  qed
  have a3: "self_Q self \<noteq> self_N self \<and> do_rollout_on fuel ops self hs node = (Some r, hs')
      \<longrightarrow> do_rollout ops (view hs self) node
            = Some (case r of Inl e \<Rightarrow> Inl e | Inr u \<Rightarrow> Inr (view hs' self))"
    using do_rollout_on_view[of self fuel ops hs node r hs'] by simp
  have a4: "self_Q self \<noteq> self_N self
      \<longrightarrow> MCTS_choose ops (view hs self) node = lift_on self (choose_on ops self hs node)"
    using choose_on_view[of self ops hs node] by simp
  show ?thesis by (rule conjI[OF a1 conjI[OF a2 conjI[OF a3 a4]]])
qed

theorem instances_do_not_share_witness:
  "MCTS_new (empty_store :: ex_node store) ex_agents (141 / 100 :: real)
     = (ex_a, snd (MCTS_new (empty_store :: ex_node store) ex_agents (141 / 100 :: real))) \<and>
   view (snd (MCTS_new (empty_store :: ex_node store) ex_agents (141 / 100 :: real))) ex_a = ex_s0 \<and>
   exec 5 ex_ops (empty_store, []) ex_prog
     = (ex_store Map.empty Map.empty Map.empty, [ex_a, ex_b]) \<and>
   list_all (calls_instance 0) ex_calls \<and>
   exec 5 ex_ops (ex_store Map.empty Map.empty Map.empty, [ex_a, ex_b]) ex_calls
     = (ex_store [NodeR \<mapsto> - 1] [NodeR \<mapsto> 1, NodeB \<mapsto> 0, NodeC \<mapsto> 0]
          [NodeR \<mapsto> [NodeB, NodeC]], [ex_a, ex_b]) \<and>
   separate ex_a ex_b \<and>
   tables (ex_store [NodeR \<mapsto> - 1] [NodeR \<mapsto> 1, NodeB \<mapsto> 0, NodeC \<mapsto> 0]
             [NodeR \<mapsto> [NodeB, NodeC]]) ex_a
     = ([NodeR \<mapsto> - 1], [NodeR \<mapsto> 1, NodeB \<mapsto> 0, NodeC \<mapsto> 0], [NodeR \<mapsto> [NodeB, NodeC]]) \<and>
   tables (ex_store [NodeR \<mapsto> - 1] [NodeR \<mapsto> 1, NodeB \<mapsto> 0, NodeC \<mapsto> 0]
             [NodeR \<mapsto> [NodeB, NodeC]]) ex_b
     = tables (ex_store Map.empty Map.empty Map.empty) ex_b \<and>
   self_Q ex_a \<noteq> self_N ex_a \<and>
   do_rollout_on 5 ex_ops ex_a (ex_store Map.empty Map.empty Map.empty) NodeR
     = (Some (Inr ()), ex_store [NodeR \<mapsto> - 1] [NodeR \<mapsto> 1] [NodeR \<mapsto> [NodeB, NodeC]]) \<and>
   do_rollout ex_ops ex_s0 NodeR = Some (Inr ex_s1) \<and>
   choose_on ex_ops ex_a (ex_store [NodeR \<mapsto> - 1] [NodeR \<mapsto> 1] [NodeR \<mapsto> [NodeB, NodeC]]) NodeR
     = (Inr NodeB, ex_store [NodeR \<mapsto> - 1] [NodeR \<mapsto> 1, NodeB \<mapsto> 0, NodeC \<mapsto> 0]
                     [NodeR \<mapsto> [NodeB, NodeC]]) \<and>
   MCTS_choose ex_ops ex_s1 NodeR
     = Inr (NodeB, ex_state [NodeR \<mapsto> - 1] [NodeR \<mapsto> 1, NodeB \<mapsto> 0, NodeC \<mapsto> 0]
                     [NodeR \<mapsto> [NodeB, NodeC]])"
proof -
  note u = instances_do_not_share
    [of "empty_store :: ex_node store" ex_agents "141 / 100" ex_a
        "snd (MCTS_new (empty_store :: ex_node store) ex_agents (141 / 100 :: real))"
        5 ex_ops ex_prog "ex_store Map.empty Map.empty Map.empty" "[ex_a, ex_b]" 0 1 ex_calls 5
        "ex_store [NodeR \<mapsto> - 1] [NodeR \<mapsto> 1, NodeB \<mapsto> 0, NodeC \<mapsto> 0] [NodeR \<mapsto> [NodeB, NodeC]]"
        "[ex_a, ex_b]" ex_a "ex_store [NodeR \<mapsto> - 1] [NodeR \<mapsto> 1] [NodeR \<mapsto> [NodeB, NodeC]]"
        NodeR "Inr ()" "ex_store [NodeR \<mapsto> - 1] [NodeR \<mapsto> 1] [NodeR \<mapsto> [NodeB, NodeC]]"]
  note t = instances_do_not_share
    [of "empty_store :: ex_node store" ex_agents "141 / 100" ex_a
        "snd (MCTS_new (empty_store :: ex_node store) ex_agents (141 / 100 :: real))"
        5 ex_ops ex_prog "ex_store Map.empty Map.empty Map.empty" "[ex_a, ex_b]" 0 1 ex_calls 5
        "ex_store [NodeR \<mapsto> - 1] [NodeR \<mapsto> 1, NodeB \<mapsto> 0, NodeC \<mapsto> 0] [NodeR \<mapsto> [NodeB, NodeC]]"
        "[ex_a, ex_b]" ex_a "ex_store Map.empty Map.empty Map.empty" NodeR "Inr ()"
        "ex_store [NodeR \<mapsto> - 1] [NodeR \<mapsto> 1] [NodeR \<mapsto> [NodeB, NodeC]]"]
  have n: "MCTS_new (empty_store :: ex_node store) ex_agents (141 / 100 :: real)
     = (ex_a, snd (MCTS_new (empty_store :: ex_node store) ex_agents (141 / 100 :: real)))"
    by (simp add: MCTS_new_def new_int_dict_def new_list_dict_def empty_store_def ex_a_def)
  have p: "exec 5 ex_ops (empty_store, []) ex_prog
     = (ex_store Map.empty Map.empty Map.empty, [ex_a, ex_b])" by (rule ex_exec_prog)
  have c: "list_all (calls_instance 0) ex_calls" by (simp add: ex_calls_def)
  have e: "exec 5 ex_ops (ex_store Map.empty Map.empty Map.empty, [ex_a, ex_b]) ex_calls
     = (ex_store [NodeR \<mapsto> - 1] [NodeR \<mapsto> 1, NodeB \<mapsto> 0, NodeC \<mapsto> 0]
          [NodeR \<mapsto> [NodeB, NodeC]], [ex_a, ex_b])"
    using ex_exec_calls[of 4] by simp
  have d: "self_Q ex_a \<noteq> self_N ex_a" by (simp add: ex_ref_fields)
  have r: "do_rollout_on 5 ex_ops ex_a (ex_store Map.empty Map.empty Map.empty) NodeR
     = (Some (Inr ()), ex_store [NodeR \<mapsto> - 1] [NodeR \<mapsto> 1] [NodeR \<mapsto> [NodeB, NodeC]])"
    using ex_rollout_on[of 4] by simp
  have 1: "view (snd (MCTS_new (empty_store :: ex_node store) ex_agents (141 / 100 :: real))) ex_a
             = ex_s0"
    using t[THEN conjunct1] n ex_init by (simp add: MCTS_init_default_def ex_ops_fields)
  have 2: "separate ex_a ex_b \<and>
           tables (ex_store [NodeR \<mapsto> - 1] [NodeR \<mapsto> 1, NodeB \<mapsto> 0, NodeC \<mapsto> 0]
                     [NodeR \<mapsto> [NodeB, NodeC]]) ex_b
             = tables (ex_store Map.empty Map.empty Map.empty) ex_b"
    using t[THEN conjunct2, THEN conjunct1] p c e by simp
  have 3: "do_rollout ex_ops ex_s0 NodeR = Some (Inr ex_s1)"
    using t[THEN conjunct2, THEN conjunct2, THEN conjunct1] d r
    by (simp add: ex_view ex_s0_def ex_s1_def)
  have 4: "MCTS_choose ex_ops ex_s1 NodeR
     = Inr (NodeB, ex_state [NodeR \<mapsto> - 1] [NodeR \<mapsto> 1, NodeB \<mapsto> 0, NodeC \<mapsto> 0]
                     [NodeR \<mapsto> [NodeB, NodeC]])"
    using u[THEN conjunct2, THEN conjunct2, THEN conjunct2] d
    by (simp add: ex_view[symmetric] ex_s1_def ex_choose_on lift_on_def)
  show ?thesis using n p c e d r 1 2 3 4 ex_tables(1) ex_choose_on by simp
qed

subsection \<open>C9: the two error families\<close>

text \<open>
  C9. \<^verbatim>\<open>FullHandError\<close>, \<^verbatim>\<open>EmptyDeckError\<close> and \<^verbatim>\<open>WardShieldError\<close> are subclasses of
  \<^verbatim>\<open>GameError\<close>; \<^verbatim>\<open>NotEnoughManaError\<close>, \<^verbatim>\<open>FullLaneError\<close> and \<^verbatim>\<open>MalformedActionError\<close>
  are subclasses of \<^verbatim>\<open>ActionError\<close>; among the six kinds the subclasses of
  \<^verbatim>\<open>GameError\<close> are exactly the first three and those of \<^verbatim>\<open>ActionError\<close> exactly the
  last three; and no class at all is a subclass of both.
\<close>

theorem error_families:
  "issubclass FullHandError GameError \<and> issubclass EmptyDeckError GameError \<and>
   issubclass WardShieldError GameError \<and>
   issubclass NotEnoughManaError ActionError \<and> issubclass FullLaneError ActionError \<and>
   issubclass MalformedActionError ActionError \<and>
   filter (\<lambda>c. issubclass c GameError) error_kinds
     = [FullHandError, EmptyDeckError, WardShieldError] \<and>
   filter (\<lambda>c. issubclass c ActionError) error_kinds
     = [NotEnoughManaError, FullLaneError, MalformedActionError] \<and>
   (\<forall>c. \<not> (issubclass c GameError \<and> issubclass c ActionError))"
proof -
  have "filter (\<lambda>c. issubclass c GameError) error_kinds
          = [FullHandError, EmptyDeckError, WardShieldError]"
    by (simp add: issubclass_def error_kinds_def del: mro.simps add: mro_values)
  moreover have "filter (\<lambda>c. issubclass c ActionError) error_kinds
          = [NotEnoughManaError, FullLaneError, MalformedActionError]"
    by (simp add: issubclass_def error_kinds_def del: mro.simps add: mro_values)
  moreover have "issubclass FullHandError GameError" "issubclass EmptyDeckError GameError"
    "issubclass WardShieldError GameError" "issubclass NotEnoughManaError ActionError"
    "issubclass FullLaneError ActionError" "issubclass MalformedActionError ActionError"
    by (simp_all add: issubclass_def del: mro.simps add: mro_values)
  ultimately show ?thesis using no_class_in_both by blast
qed

subsection \<open>C10: the win-loss reward\<close>

text \<open>
  C10. The opposing player of a player always exists and is the other player.
  \<^verbatim>\<open>calculate(state, p)\<close> returns 1 when the winner of the state is \<open>p\<close>, -1 when it is
  the opposing player of \<open>p\<close>, and 0 in every other case, in particular when the
  state has no winner; a simulation of the searcher never returns the reward 0.
\<close>

theorem win_loss_reward:
  "(\<exists>q. opposing p = Inr q \<and> q \<noteq> p) \<and>
   (winner ops st = Some p \<longrightarrow> WinLossRewardFunction_calculate ops st p = Inr 1) \<and>
   (opposing p = Inr q \<and> winner ops st = Some q
      \<longrightarrow> WinLossRewardFunction_calculate ops st p = Inr (- 1)) \<and>
   (winner ops st \<noteq> Some p \<and> opposing p = Inr q \<and> winner ops st \<noteq> Some q
      \<longrightarrow> WinLossRewardFunction_calculate ops st p = Inr 0) \<and>
   (winner ops st = None \<longrightarrow> WinLossRewardFunction_calculate ops st p = Inr 0) \<and>
   simulate ops s node \<noteq> Some (Inr 0)"
proof -
  have a1: "\<exists>q. opposing p = Inr q \<and> q \<noteq> p" by (cases p) (simp_all add: opposing_values)
  have a2: "winner ops st = Some p \<longrightarrow> WinLossRewardFunction_calculate ops st p = Inr 1"
    by (simp add: WinLossRewardFunction_calculate_def)
  have a3: "opposing p = Inr q \<and> winner ops st = Some q
      \<longrightarrow> WinLossRewardFunction_calculate ops st p = Inr (- 1)"
    by (cases p) (auto simp: WinLossRewardFunction_calculate_def opposing_values)
  have a4: "winner ops st \<noteq> Some p \<and> opposing p = Inr q \<and> winner ops st \<noteq> Some q
      \<longrightarrow> WinLossRewardFunction_calculate ops st p = Inr 0"
    by (cases p) (auto simp: WinLossRewardFunction_calculate_def opposing_values)
  have a5: "winner ops st = None \<longrightarrow> WinLossRewardFunction_calculate ops st p = Inr 0"
    by (cases p) (auto simp: WinLossRewardFunction_calculate_def opposing_values)
  have a6: "simulate ops s node \<noteq> Some (Inr 0)" by (rule simulate_nonzero)
  show ?thesis
    by (rule conjI[OF a1 conjI[OF a2 conjI[OF a3 conjI[OF a4 conjI[OF a5 a6]]]]])
qed

theorem win_loss_reward_witness:
  "winner ex_ops NodeB = Some SECOND \<and> opposing FIRST = Inr SECOND \<and>
   WinLossRewardFunction_calculate ex_ops NodeB SECOND = Inr 1 \<and>
   WinLossRewardFunction_calculate ex_ops NodeB FIRST = Inr (- 1) \<and>
   winner ex_ops NodeR = None \<and>
   WinLossRewardFunction_calculate ex_ops NodeR FIRST = Inr 0 \<and>
   simulate ex_ops ex_s0 NodeR = Some (Inr (- 1))"
  using win_loss_reward [of FIRST ex_ops NodeB SECOND ex_s0 NodeR]
        win_loss_reward [of SECOND ex_ops NodeB FIRST ex_s0 NodeR]
        win_loss_reward [of FIRST ex_ops NodeR SECOND ex_s0 NodeR]
  by (simp add: ex_ops_fields opposing_values ex_sim ex_s0_def)

end
